theory Spec2Isabelle
  imports Main "HOL-Library.Multiset"
begin

section \<open>Python library behaviour the quiz relies on\<close>

text \<open>
  The program is \<^verbatim>\<open>src/k3qs.py\<close>, a Streamlit quiz over vocabulary pairs. A Python
  \<^verbatim>\<open>str\<close> is modelled as a \<^typ>\<open>string\<close> in which every \<^typ>\<open>char\<close> stands
  for one code point (text whose code points are below 256, which covers German).
  Exceptions are values: a function that can raise returns \<open>py_exn + 'a\<close>.
\<close>

datatype py_exn = ValueError | TypeError | IndexError

subsection \<open>Strings: \<^verbatim>\<open>in\<close>, \<^verbatim>\<open>split\<close>, \<^verbatim>\<open>strip\<close>, line iteration\<close>

text \<open>\<^verbatim>\<open>str.isspace\<close> on the code points below 256.\<close>

definition isspace :: "char \<Rightarrow> bool" where
  "isspace c = ((of_char c :: nat) \<in> {9, 10, 11, 12, 13, 28, 29, 30, 31, 32, 133, 160})"

text \<open>\<^verbatim>\<open>s.strip()\<close>: whitespace removed at both ends.\<close>

definition strip :: "string \<Rightarrow> string" where
  "strip s = rev (dropWhile isspace (rev (dropWhile isspace s)))"

text \<open>
  \<^verbatim>\<open>s.split(sep, maxsplit)\<close> for a one-character separator: at most \<open>maxsplit\<close> cuts,
  from the left; the result is never empty.
\<close>

fun split_max :: "char \<Rightarrow> nat \<Rightarrow> string \<Rightarrow> string list" where
  "split_max sep 0 s = [s]"
| "split_max sep (Suc n) [] = [[]]"
| "split_max sep (Suc n) (c # cs) =
     (if c = sep then [] # split_max sep n cs
      else (case split_max sep (Suc n) cs of
              [] \<Rightarrow> [[c]]
            | p # ps \<Rightarrow> (c # p) # ps))"

text \<open>\<^verbatim>\<open>s.split(sep)\<close>: no limit on the cuts (a string of \<open>n\<close> characters has at most \<open>n\<close>).\<close>

definition split :: "char \<Rightarrow> string \<Rightarrow> string list" where
  "split sep s = split_max sep (length s) s"

text \<open>
  Iterating an \<^verbatim>\<open>io.StringIO\<close>: the text is cut after every line feed, which stays at
  the end of its line; a last line without line feed is yielded as it is.
\<close>

fun readlines :: "string \<Rightarrow> string list" where
  "readlines [] = []"
| "readlines (c # cs) =
     (if c = CHR 0x0A then [c] # readlines cs
      else (case readlines cs of
              [] \<Rightarrow> [[c]]
            | l # ls \<Rightarrow> (c # l) # ls))"

subsection \<open>Lists: \<^verbatim>\<open>pop\<close>\<close>

text \<open>\<^verbatim>\<open>xs.pop()\<close> removes and returns the last element; on an empty list it raises.\<close>

definition pop :: "'a list \<Rightarrow> py_exn + ('a \<times> 'a list)" where
  "pop xs = (if xs = [] then Inl IndexError else Inr (last xs, butlast xs))"

subsection \<open>The \<^verbatim>\<open>random\<close> module\<close>

text \<open>
  Randomness is an input: a call receives the numbers the generator hands out, as a
  function from the draw's index to a natural number, and every theorem holds for all
  of them. \<open>draw r xs k\<close> takes \<open>k\<close> elements out of \<open>xs\<close> one after the other, each
  at the position the next random number selects among those still left, so that no
  position is taken twice.
\<close>

fun draw :: "(nat \<Rightarrow> nat) \<Rightarrow> 'a list \<Rightarrow> nat \<Rightarrow> 'a list" where
  "draw r xs 0 = []"
| "draw r xs (Suc k) =
     (if xs = [] then []
      else (let j = r k mod length xs
            in xs ! j # draw r (take j xs @ drop (Suc j) xs) k))"

text \<open>
  \<^verbatim>\<open>random.sample(population, k)\<close>: \<open>k\<close> elements at distinct positions, in selection
  order; \<^verbatim>\<open>ValueError\<close> when the sample is larger than the population.
\<close>

definition random_sample :: "(nat \<Rightarrow> nat) \<Rightarrow> 'a list \<Rightarrow> nat \<Rightarrow> py_exn + 'a list" where
  "random_sample r population k =
     (if length population < k then Inl ValueError else Inr (draw r population k))"

text \<open>\<^verbatim>\<open>random.shuffle(x)\<close>: the list in some order (in place; here the new list).\<close>

definition random_shuffle :: "(nat \<Rightarrow> nat) \<Rightarrow> 'a list \<Rightarrow> 'a list" where
  "random_shuffle r x = draw r x (length x)"

section \<open>Core quiz logic\<close>

text \<open>
  The dictionaries of the program, with their keys as fields. The key \<^verbatim>\<open>translations\<close>
  of a question is the field \<open>q_translations\<close>, and the keys of an entry of
  \<^verbatim>\<open>incorrect_answers\<close> carry the prefix \<open>ia_\<close>.
\<close>

record verb_entry =
  Verb :: string
  Translation :: string

record question_data =
  current_verb :: string
  correct_translation :: string
  context_sentence :: string
  q_translations :: "string list"

record incorrect_answer =
  ia_Verb :: string
  ia_Correct_Translation :: string
  ia_User_Choice :: string

subsection \<open>\<^verbatim>\<open>load_verbs\<close>\<close>

text \<open>
  One iteration of the loop of \<^verbatim>\<open>load_verbs\<close>: what the line adds to \<^verbatim>\<open>verbs\<close>. The
  tuple assignment raises \<^verbatim>\<open>ValueError\<close> unless the split has exactly two parts.
\<close>

definition parse_line :: "string \<Rightarrow> py_exn + verb_entry list" where
  "parse_line line =
     (if CHR ''['' \<in> set line \<and> CHR '']'' \<in> set line then
        (case split_max CHR ''['' 1 line of
           [verb, translation] \<Rightarrow>
             Inr [\<lparr>Verb = strip verb, Translation = strip (hd (split CHR '']'' translation))\<rparr>]
         | _ \<Rightarrow> Inl ValueError)
      else Inr [])"

fun parse_lines :: "string list \<Rightarrow> py_exn + verb_entry list" where
  "parse_lines [] = Inr []"
| "parse_lines (line # rest) =
     (case parse_line line of
        Inl e \<Rightarrow> Inl e
      | Inr vs \<Rightarrow> (case parse_lines rest of
                    Inl e \<Rightarrow> Inl e
                  | Inr ws \<Rightarrow> Inr (vs @ ws)))"

text \<open>
  The uploaded file is given by what \<^verbatim>\<open>uploaded_file.getvalue().decode("utf-8")\<close>
  yields: the text, or nothing when the bytes do not decode (the call raises). The
  \<^verbatim>\<open>except\<close> clause turns every exception of the body into the result \<^verbatim>\<open>None\<close>.
\<close>

type_synonym uploaded_file = "string option"

definition load_verbs :: "uploaded_file \<Rightarrow> verb_entry list option" where
  "load_verbs uploaded_file =
     (case uploaded_file of
        None \<Rightarrow> None
      | Some text \<Rightarrow>
          (case parse_lines (readlines text) of
             Inl e \<Rightarrow> None
           | Inr verbs \<Rightarrow> Some verbs))"

subsection \<open>\<^verbatim>\<open>generate_context_sentence\<close>\<close>

text \<open>
  The sentence service is outside the program: one request either raises (with the
  text of the exception) or answers with the content of the first choice. A request is
  taken to end; how long it takes is not modelled.
\<close>

datatype api_reply = Raised string | Content string

type_synonym service = "string \<Rightarrow> string \<Rightarrow> api_reply"

definition generate_context_sentence :: "service \<Rightarrow> string \<Rightarrow> string \<Rightarrow> py_exn + string" where
  "generate_context_sentence api verb api_key =
     (if api_key = [] then Inr ''[API Key not provided]''
      else (case api verb api_key of
              Content text \<Rightarrow> Inr text
            | Raised e \<Rightarrow> Inr (''[Sentence generation failed for '' @ [CHR 0x27] @ verb
                                @ [CHR 0x27] @ '': '' @ e @ '']'')))"

subsection \<open>\<^verbatim>\<open>prepare_question_data\<close>\<close>

text \<open>
  What the outside world supplies to one run of \<^verbatim>\<open>prepare_question_data\<close>: the
  service's behaviour and the random numbers of \<^verbatim>\<open>random.sample\<close> and
  \<^verbatim>\<open>random.shuffle\<close>.
\<close>

record env =
  sentence_service :: service
  sample_rnd :: "nat \<Rightarrow> nat"
  shuffle_rnd :: "nat \<Rightarrow> nat"

definition prepare_question_data ::
  "env \<Rightarrow> verb_entry \<Rightarrow> verb_entry list \<Rightarrow> string \<Rightarrow> py_exn + question_data" where
  "prepare_question_data e verb_entry all_verbs api_key =
     (let verb = Verb verb_entry;
          correct = Translation verb_entry
      in case generate_context_sentence (sentence_service e) verb api_key of
           Inl ex \<Rightarrow> Inl ex
         | Inr sentence \<Rightarrow>
             (let other_verbs = filter (\<lambda>v. Translation v \<noteq> correct) all_verbs
              in case random_sample (sample_rnd e) other_verbs 4 of
                   Inl ex \<Rightarrow> Inl ex
                 | Inr chosen \<Rightarrow>
                     Inr \<lparr>current_verb = verb,
                          correct_translation = correct,
                          context_sentence = sentence,
                          q_translations =
                            random_shuffle (shuffle_rnd e)
                              (map Translation chosen @ [correct])\<rparr>))"

section \<open>Session state, background threads and the callbacks\<close>

text \<open>
  \<^verbatim>\<open>st.session_state\<close>. The key \<^verbatim>\<open>total_verbs\<close> is optional because the script asks
  whether it is present; \<^verbatim>\<open>current_question_data\<close> is \<open>None\<close> while the key is not
  set and when it holds Python's \<^verbatim>\<open>None\<close> (reading the question fails in both cases).
  \<^verbatim>\<open>next_question_job\<close> refers to a started thread by its position in the table of
  threads below.
\<close>

record session_state =
  quiz_running :: bool
  all_verbs :: "verb_entry list"
  total_verbs :: "nat option"
  unused_verbs :: "verb_entry list"
  incorrect_answers :: "incorrect_answer list"
  question_number :: nat
  api_key :: string
  show_feedback :: bool
  last_answer_was_correct :: bool
  current_question_data :: "question_data option"
  next_question_job :: "nat option"

text \<open>
  A started \<^verbatim>\<open>threading.Thread\<close> with target \<^verbatim>\<open>worker_prepare_question\<close>, together with
  the \<^verbatim>\<open>result_holder\<close> it was given: the three arguments, what the outside world
  will supply to its run, whether it is still running, and the cell
  \<^verbatim>\<open>result_holder['data']\<close>.
\<close>

record thread =
  arg_verb_entry :: verb_entry
  arg_all_verbs :: "verb_entry list"
  arg_api_key :: string
  supplied :: env
  is_alive :: bool
  data :: "question_data option"

text \<open>The state of the program: the session and every thread started so far.\<close>

record world =
  session :: session_state
  threads :: "thread list"

definition initial_session :: session_state where
  "initial_session =
     \<lparr>quiz_running = False, all_verbs = [], total_verbs = None, unused_verbs = [],
      incorrect_answers = [], question_number = 0, api_key = [], show_feedback = False,
      last_answer_was_correct = False, current_question_data = None,
      next_question_job = None\<rparr>"

definition initial_world :: world where
  "initial_world = \<lparr>session = initial_session, threads = []\<rparr>"

text \<open>How a callback ends: normally, after \<^verbatim>\<open>st.error\<close> and \<^verbatim>\<open>return\<close>, or by an exception.\<close>

datatype outcome = Done | Refused | Raises py_exn

subsection \<open>\<^verbatim>\<open>worker_prepare_question\<close> and \<^verbatim>\<open>Thread.join\<close>\<close>

text \<open>
  The run of a thread to its end. An exception of the target ends the thread and leaves
  the cell as it was; it reaches no other thread.
\<close>

definition worker_prepare_question :: "thread \<Rightarrow> thread" where
  "worker_prepare_question t =
     (case prepare_question_data (supplied t) (arg_verb_entry t) (arg_all_verbs t)
             (arg_api_key t) of
        Inl ex \<Rightarrow> t\<lparr>is_alive := False\<rparr>
      | Inr q_data \<Rightarrow> t\<lparr>data := Some q_data, is_alive := False\<rparr>)"

text \<open>The thread \<open>tid\<close> finishes (on its own, at any moment).\<close>

definition thread_finishes :: "nat \<Rightarrow> world \<Rightarrow> world" where
  "thread_finishes tid w =
     w\<lparr>threads := (threads w)[tid := worker_prepare_question (threads w ! tid)]\<rparr>"

text \<open>\<^verbatim>\<open>thread.join()\<close> returns once the thread has finished, and never raises.\<close>

definition join :: "nat \<Rightarrow> world \<Rightarrow> world" where
  "join tid w = (if is_alive (threads w ! tid) then thread_finishes tid w else w)"

subsection \<open>\<^verbatim>\<open>launch_next_question_job\<close>\<close>

definition launch_next_question_job :: "env \<Rightarrow> world \<Rightarrow> outcome \<times> world" where
  "launch_next_question_job e w =
     (if unused_verbs (session w) \<noteq> [] then
        (case pop (unused_verbs (session w)) of
           Inl ex \<Rightarrow> (Raises ex, w)
         | Inr (next_verb_entry, rest) \<Rightarrow>
             (Done,
              w\<lparr>threads := threads w @
                    [\<lparr>arg_verb_entry = next_verb_entry,
                      arg_all_verbs = all_verbs (session w),
                      arg_api_key = api_key (session w),
                      supplied = e, is_alive = True, data = None\<rparr>],
                session := (session w)\<lparr>unused_verbs := rest,
                              next_question_job := Some (length (threads w))\<rparr>\<rparr>))
      else (Done, w\<lparr>session := (session w)\<lparr>next_question_job := None\<rparr>\<rparr>))"

subsection \<open>\<^verbatim>\<open>initialize_quiz\<close>\<close>

text \<open>
  The arguments \<open>r\<close>, \<open>e1\<close> and \<open>e2\<close> are the random numbers of the shuffle, what is
  supplied to the inline build of the first question, and what will be supplied to the
  thread that is started. An exception of \<^verbatim>\<open>prepare_question_data\<close> leaves the
  assignments made before it in place.
\<close>

definition initialize_quiz ::
  "(nat \<Rightarrow> nat) \<Rightarrow> env \<Rightarrow> env \<Rightarrow> uploaded_file \<Rightarrow> string \<Rightarrow> world \<Rightarrow> outcome \<times> world" where
  "initialize_quiz r e1 e2 uploaded_file key w =
     (case load_verbs uploaded_file of
        None \<Rightarrow> (Refused, w)
      | Some loaded \<Rightarrow>
          if loaded = [] \<or> length loaded < 5 then (Refused, w)
          else
            (let verbs = random_shuffle r loaded;
                 s1 = (session w)\<lparr>all_verbs := verbs, total_verbs := Some (length verbs),
                        unused_verbs := verbs, incorrect_answers := [], question_number := 1,
                        api_key := key, quiz_running := True, show_feedback := False\<rparr>
             in case pop (unused_verbs s1) of
                  Inl ex \<Rightarrow> (Raises ex, w\<lparr>session := s1\<rparr>)
                | Inr (q1_verb, rest) \<Rightarrow>
                    (let s2 = s1\<lparr>unused_verbs := rest\<rparr>
                     in case prepare_question_data e1 q1_verb (all_verbs s2) (api_key s2) of
                          Inl ex \<Rightarrow> (Raises ex, w\<lparr>session := s2\<rparr>)
                        | Inr q \<Rightarrow>
                            launch_next_question_job e2
                              (w\<lparr>session := s2\<lparr>current_question_data := Some q\<rparr>\<rparr>))))"

subsection \<open>\<^verbatim>\<open>handle_answer\<close>\<close>

text \<open>Subscripting \<^verbatim>\<open>None\<close> raises \<^verbatim>\<open>TypeError\<close>.\<close>

definition handle_answer :: "string \<Rightarrow> world \<Rightarrow> outcome \<times> world" where
  "handle_answer user_choice w =
     (case current_question_data (session w) of
        None \<Rightarrow> (Raises TypeError, w)
      | Some q \<Rightarrow>
          (let s1 = (session w)\<lparr>last_answer_was_correct := (user_choice = correct_translation q)\<rparr>;
               s2 = (if \<not> last_answer_was_correct s1
                     then s1\<lparr>incorrect_answers := incorrect_answers s1 @
                            [\<lparr>ia_Verb = current_verb q,
                              ia_Correct_Translation = correct_translation q,
                              ia_User_Choice = user_choice\<rparr>]\<rparr>
                     else s1)
           in (Done, w\<lparr>session := s2\<lparr>show_feedback := True\<rparr>\<rparr>)))"

subsection \<open>\<^verbatim>\<open>next_question\<close>\<close>

text \<open>\<open>e\<close> is what will be supplied to the thread that is started, if one is.\<close>

definition next_question :: "env \<Rightarrow> world \<Rightarrow> outcome \<times> world" where
  "next_question e w =
     (case next_question_job (session w) of
        None \<Rightarrow> (Done, w)
      | Some job \<Rightarrow>
          (let w1 = join job w;
               result_data = data (threads w1 ! job);
               s = (session w1)\<lparr>current_question_data := result_data,
                                 question_number := question_number (session w1) + 1,
                                 show_feedback := False\<rparr>
           in launch_next_question_job e (w1\<lparr>session := s\<rparr>)))"

section \<open>The script: what a user action does\<close>

text \<open>
  The buttons the script shows, and the end of a background thread. \<open>Start_Quiz\<close>
  carries the uploaded file, the key typed in, and what the outside world supplies
  (see \<open>initialize_quiz\<close>); \<open>Choose i\<close> presses the button of option \<open>i\<close>.
\<close>

datatype event =
    Start_Quiz uploaded_file string "nat \<Rightarrow> nat" env env
  | End_Quiz_Now
  | Start_Over
  | Choose nat
  | Next_Question env
  | Finish_Quiz
  | Thread_Finishes nat

text \<open>
  The main area shows a question only while the quiz runs, the progress bar accepts the
  ratio \<^verbatim>\<open>question_number / total_verbs\<close> (a value from 0 to 1) and the current
  question can be read; otherwise the run of the script stops with an exception before
  it reaches the buttons of the main area.
\<close>

definition question_shown :: "world \<Rightarrow> bool" where
  "question_shown w =
     (quiz_running (session w)
      \<and> (case total_verbs (session w) of
           None \<Rightarrow> False
         | Some n \<Rightarrow> n \<noteq> 0 \<and> question_number (session w) \<le> n)
      \<and> current_question_data (session w) \<noteq> None)"

definition finish_quiz :: "world \<Rightarrow> world" where
  "finish_quiz w = w\<lparr>session := (session w)\<lparr>quiz_running := False\<rparr>\<rparr>"

text \<open>
  \<open>step ev w\<close> is the state after the event, or \<open>None\<close> when the script does not offer
  the button in \<open>w\<close> (or the thread is not running). A callback that raises leaves its
  assignments in the session.
\<close>

fun step :: "event \<Rightarrow> world \<Rightarrow> world option" where
  "step (Start_Quiz uploaded_file key r e1 e2) w =
     (if key = [] then None else Some (snd (initialize_quiz r e1 e2 uploaded_file key w)))"
| "step End_Quiz_Now w =
     (if quiz_running (session w) then Some (finish_quiz w) else None)"
| "step Start_Over w =
     (if \<not> quiz_running (session w) \<and> total_verbs (session w) \<noteq> None
      then Some (w\<lparr>session := initial_session\<rparr>) else None)"
| "step (Choose i) w =
     (case current_question_data (session w) of
        None \<Rightarrow> None
      | Some q \<Rightarrow>
          if question_shown w \<and> \<not> show_feedback (session w)
             \<and> i < length (q_translations q)
          then Some (snd (handle_answer (q_translations q ! i) w)) else None)"
| "step (Next_Question e) w =
     (if question_shown w \<and> show_feedback (session w)
         \<and> next_question_job (session w) \<noteq> None
      then Some (snd (next_question e w)) else None)"
| "step Finish_Quiz w =
     (if question_shown w \<and> show_feedback (session w)
         \<and> next_question_job (session w) = None
      then Some (finish_quiz w) else None)"
| "step (Thread_Finishes tid) w =
     (if tid < length (threads w) \<and> is_alive (threads w ! tid)
      then Some (thread_finishes tid w) else None)"

fun run :: "event list \<Rightarrow> world \<Rightarrow> world option" where
  "run [] w = Some w"
| "run (ev # evs) w = (case step ev w of None \<Rightarrow> None | Some w' \<Rightarrow> run evs w')"

text \<open>
  The primary button of the feedback branch: \<^verbatim>\<open>Next Question\<close> with callback
  \<^verbatim>\<open>next_question\<close> while a job is stored, \<^verbatim>\<open>Finish Quiz\<close> otherwise.
\<close>

definition advance :: "env \<Rightarrow> world \<Rightarrow> outcome \<times> world" where
  "advance e w =
     (if next_question_job (session w) \<noteq> None then next_question e w
      else (Done, finish_quiz w))"

text \<open>The phases of the quiz as the script tells them apart.\<close>

datatype phase = NotStarted | Running | Finished

definition engine_state :: "world \<Rightarrow> phase" where
  "engine_state w =
     (if quiz_running (session w) then Running
      else if total_verbs (session w) = None then NotStarted else Finished)"

definition alive_threads :: "world \<Rightarrow> nat" where
  "alive_threads w = length (filter is_alive (threads w))"

text \<open>
  \<open>n\<close> calls of \<^verbatim>\<open>pop\<close> in a row: the elements returned, in the order of the calls,
  and the list that is left.
\<close>

fun pops :: "nat \<Rightarrow> 'a list \<Rightarrow> py_exn + ('a list \<times> 'a list)" where
  "pops 0 xs = Inr ([], xs)"
| "pops (Suc n) xs =
     (case pop xs of
        Inl ex \<Rightarrow> Inl ex
      | Inr (x, rest) \<Rightarrow>
          (case pops n rest of
             Inl ex \<Rightarrow> Inl ex
           | Inr (ys, rest') \<Rightarrow> Inr (x # ys, rest')))"

text \<open>The number of times \<^verbatim>\<open>Start Quiz\<close> was pressed in a sequence of events.\<close>

fun is_start :: "event \<Rightarrow> bool" where
  "is_start (Start_Quiz uploaded_file key r e1 e2) = True"
| "is_start ev = False"

definition starts :: "event list \<Rightarrow> nat" where
  "starts evs = length (filter is_start evs)"

section \<open>Example inputs\<close>

definition always_first :: "nat \<Rightarrow> nat" where
  "always_first i = 0"

definition echo_service :: service where
  "echo_service verb key = Content (''Satz mit '' @ verb)"

definition failing_service :: service where
  "failing_service verb key = Raised ''timeout''"

definition env0 :: env where
  "env0 = \<lparr>sentence_service = echo_service, sample_rnd = always_first,
            shuffle_rnd = always_first\<rparr>"

definition synonyms_text :: string where
  "synonyms_text = ''gehen [to go]\<newline>laufen [to run]\<newline>beginnen [to begin]\<newline>anfangen [to begin]\<newline>essen [to eat]\<newline>''"

definition synonyms_pool :: "verb_entry list" where
  "synonyms_pool =
     [\<lparr>Verb = ''gehen'', Translation = ''to go''\<rparr>,
      \<lparr>Verb = ''laufen'', Translation = ''to run''\<rparr>,
      \<lparr>Verb = ''beginnen'', Translation = ''to begin''\<rparr>,
      \<lparr>Verb = ''anfangen'', Translation = ''to begin''\<rparr>,
      \<lparr>Verb = ''essen'', Translation = ''to eat''\<rparr>]"

definition six_text :: string where
  "six_text = ''a [1]\<newline>b [2]\<newline>c [3]\<newline>d [4]\<newline>e [5]\<newline>f [6]\<newline>''"

definition six_pool :: "verb_entry list" where
  "six_pool =
     [\<lparr>Verb = ''a'', Translation = ''1''\<rparr>, \<lparr>Verb = ''b'', Translation = ''2''\<rparr>,
      \<lparr>Verb = ''c'', Translation = ''3''\<rparr>, \<lparr>Verb = ''d'', Translation = ''4''\<rparr>,
      \<lparr>Verb = ''e'', Translation = ''5''\<rparr>, \<lparr>Verb = ''f'', Translation = ''6''\<rparr>]"

definition two_text :: string where
  "two_text = ''a [1]\<newline>b [2]\<newline>''"

text \<open>The state after \<^verbatim>\<open>Start Quiz\<close> with the upload that holds two synonyms.\<close>

definition synonyms_started :: world where
  "synonyms_started =
     snd (initialize_quiz always_first env0 env0 (Some synonyms_text) ''key'' initial_world)"

text \<open>
  A quiz over six pairs: the state after \<^verbatim>\<open>Start Quiz\<close>, after the first answer, and
  at the last question, reached by answering and advancing five times.
\<close>

definition six_started :: world where
  "six_started =
     snd (initialize_quiz always_first env0 env0 (Some six_text) ''key'' initial_world)"

definition six_trace :: "event list" where
  "six_trace =
     [Start_Quiz (Some six_text) ''key'' always_first env0 env0,
      Choose 0, Next_Question env0, Choose 4, Next_Question env0, Choose 1, Next_Question env0,
      Choose 0, Next_Question env0, Choose 0, Next_Question env0, Choose 2]"

definition six_answered :: world where
  "six_answered = snd (handle_answer ''1'' six_started)"

definition six_last :: world where
  "six_last = the (run six_trace initial_world)"

text \<open>The quiz with the two synonyms after the first answer.\<close>

definition synonyms_answered :: world where
  "synonyms_answered = snd (handle_answer ''to go'' synonyms_started)"

text \<open>
  The unused pairs are an initial piece of \<^verbatim>\<open>all_verbs\<close>: pairs leave the list at its
  end only.
\<close>

definition unused_is_prefix :: "world \<Rightarrow> bool" where
  "unused_is_prefix w =
     (take (length (unused_verbs (session w))) (all_verbs (session w)) = unused_verbs (session w))"

text \<open>
  Whether the stored job has finished while its result has not been read yet (1 or 0),
  and the bound on the threads of the program that the proofs carry along: the stored
  job refers to a started thread, and the threads alive, together with a stored job that
  has finished, are at most \<open>n\<close>.
\<close>

definition job_finished_unread :: "world \<Rightarrow> nat" where
  "job_finished_unread w =
     (case next_question_job (session w) of
        None \<Rightarrow> 0
      | Some tid \<Rightarrow> if is_alive (threads w ! tid) then 0 else 1)"

definition jobs_bounded :: "nat \<Rightarrow> world \<Rightarrow> bool" where
  "jobs_bounded n w =
     ((case next_question_job (session w) of
         None \<Rightarrow> True
       | Some tid \<Rightarrow> tid < length (threads w))
      \<and> alive_threads w + job_finished_unread w \<le> n)"

text \<open>
  \<^verbatim>\<open>Start Quiz\<close> pressed twice in a row, and the start of a quiz followed by the first
  answer.
\<close>

definition restart_trace :: "event list" where
  "restart_trace =
     [Start_Quiz (Some six_text) ''key'' always_first env0 env0,
      Start_Quiz (Some six_text) ''key'' always_first env0 env0]"

definition six_first_answer :: "event list" where
  "six_first_answer = [Start_Quiz (Some six_text) ''key'' always_first env0 env0, Choose 0]"

text \<open>A service that answers every request with empty content.\<close>

definition empty_service :: service where
  "empty_service verb key = Content []"

definition env_empty :: env where
  "env_empty = \<lparr>sentence_service = empty_service, sample_rnd = always_first,
                 shuffle_rnd = always_first\<rparr>"

text \<open>
  The events of a running quiz: every event but a new start and the reset.
\<close>

fun in_quiz :: "event \<Rightarrow> bool" where
  "in_quiz (Start_Quiz uploaded_file key r e1 e2) = False"
| "in_quiz Start_Over = False"
| "in_quiz ev = True"

text \<open>
  The pairs taken from the pool since the quiz was started, in the order in which they
  were taken: the pair \<open>v1\<close> of the first question, then the pair of every thread started
  since (\<open>k\<close> threads existed before the start). The pool is accounted for when the
  shuffled list consists of the unused pairs followed by these pairs, last taken first.
\<close>

definition handed_out :: "nat \<Rightarrow> verb_entry \<Rightarrow> world \<Rightarrow> verb_entry list" where
  "handed_out k v1 w = v1 # map arg_verb_entry (drop k (threads w))"

definition pool_accounted :: "nat \<Rightarrow> verb_entry \<Rightarrow> world \<Rightarrow> bool" where
  "pool_accounted k v1 w =
     (k \<le> length (threads w)
      \<and> all_verbs (session w) = unused_verbs (session w) @ rev (handed_out k v1 w))"

text \<open>
  An upload in which a line occurs twice, and the state after \<^verbatim>\<open>Start Quiz\<close> with it; the
  events of the quiz over six pairs that follow its start.
\<close>

definition repeat_text :: string where
  "repeat_text = ''a [1]\<newline>b [2]\<newline>c [3]\<newline>d [4]\<newline>e [5]\<newline>e [5]\<newline>''"

definition repeat_pool :: "verb_entry list" where
  "repeat_pool =
     [\<lparr>Verb = ''a'', Translation = ''1''\<rparr>, \<lparr>Verb = ''b'', Translation = ''2''\<rparr>,
      \<lparr>Verb = ''c'', Translation = ''3''\<rparr>, \<lparr>Verb = ''d'', Translation = ''4''\<rparr>,
      \<lparr>Verb = ''e'', Translation = ''5''\<rparr>, \<lparr>Verb = ''e'', Translation = ''5''\<rparr>]"

definition repeat_started :: world where
  "repeat_started =
     snd (initialize_quiz always_first env0 env0 (Some repeat_text) ''key'' initial_world)"

definition six_rest :: "event list" where
  "six_rest =
     [Choose 0, Next_Question env0, Choose 4, Next_Question env0, Choose 1, Next_Question env0,
      Choose 0, Next_Question env0, Choose 0, Next_Question env0, Choose 2]"

section \<open>Facts about the library functions\<close>

lemma remove_nth_mset:
  "j < length xs \<Longrightarrow> mset xs = add_mset (xs ! j) (mset (take j xs @ drop (Suc j) xs))"
proof -
  assume j: "j < length xs"
  then have "xs = take j xs @ xs ! j # drop (Suc j) xs"
    by (simp add: id_take_nth_drop)
  then have "mset xs = mset (take j xs @ xs ! j # drop (Suc j) xs)"
    by simp
  then show ?thesis by simp
qed

lemma length_draw: "k \<le> length xs \<Longrightarrow> length (draw r xs k) = k"
proof (induction k arbitrary: xs)
  case 0
  show ?case by simp
next
  case (Suc k)
  then have ne: "xs \<noteq> []" by auto
  then have j: "r k mod length xs < length xs" by simp
  have "k \<le> length (take (r k mod length xs) xs @ drop (Suc (r k mod length xs)) xs)"
    using Suc.prems j by simp
  then show ?case using Suc.IH ne by (simp add: Let_def)
qed

lemma mset_draw: "mset (draw r xs k) \<subseteq># mset xs"
proof (induction k arbitrary: xs)
  case 0
  show ?case by simp
next
  case (Suc k)
  show ?case
  proof (cases "xs = []")
    case True
    then show ?thesis by simp
  next
    case False
    let ?j = "r k mod length xs"
    have j: "?j < length xs" using False by simp
    have "mset (draw r (take ?j xs @ drop (Suc ?j) xs) k) \<subseteq># mset (take ?j xs @ drop (Suc ?j) xs)"
      by (rule Suc.IH)
    then have "add_mset (xs ! ?j) (mset (draw r (take ?j xs @ drop (Suc ?j) xs) k)) \<subseteq># mset xs"
      using remove_nth_mset[OF j] by simp
    then show ?thesis using False by (simp add: Let_def)
  qed
qed

lemma mset_random_shuffle: "mset (random_shuffle r xs) = mset xs"
proof -
  have "size (mset (random_shuffle r xs)) = size (mset xs)"
    by (simp add: random_shuffle_def length_draw)
  moreover have "mset (random_shuffle r xs) \<subseteq># mset xs"
    by (simp add: random_shuffle_def mset_draw)
  ultimately show ?thesis
    using mset_subset_size subset_mset.le_neq_trans by fastforce
qed

lemma length_random_shuffle: "length (random_shuffle r xs) = length xs"
  by (simp add: random_shuffle_def length_draw)

lemma set_random_shuffle: "set (random_shuffle r xs) = set xs"
  using mset_random_shuffle[of r xs] by (metis set_mset_mset)

lemma distinct_random_shuffle: "distinct (random_shuffle r xs) = distinct xs"
  using mset_random_shuffle[of r xs] by (metis mset_eq_imp_distinct_iff)

lemma distinct_sub_mset:
  assumes "mset xs \<subseteq># mset ys" and "distinct ys"
  shows "distinct xs"
proof -
  have "count (mset xs) a \<le> 1" for a
  proof -
    have "count (mset xs) a \<le> count (mset ys) a"
      using assms(1) by (simp add: mset_subset_eq_count)
    also have "\<dots> \<le> 1"
      using assms(2) by (simp add: distinct_count_atmost_1)
    finally show ?thesis .
  qed
  then show ?thesis
    by (metis count_mset_0_iff distinct_count_atmost_1 le_antisym nat_less_le not_in_iff less_one set_mset_mset linorder_not_less)
qed

text \<open>
  The random numbers reach every outcome of the library functions: each selection of
  elements at distinct positions, in each order, is the sample for some numbers, and each
  rearrangement of a list is its shuffle for some numbers. So a statement about all
  random numbers is a statement about all outcomes.
\<close>

lemma draw_cong: "(\<forall>i<k. r i = r' i) \<Longrightarrow> draw r xs k = draw r' xs k"
proof (induction k arbitrary: xs)
  case 0
  show ?case by simp
next
  case (Suc k)
  then have "r k = r' k" and "\<forall>i<k. r i = r' i" by simp_all
  then show ?case using Suc.IH by (simp add: Let_def)
qed

lemma draw_complete: "mset ys \<subseteq># mset xs \<Longrightarrow> \<exists>r. draw r xs (length ys) = ys"
proof (induction ys arbitrary: xs)
  case Nil
  show ?case by simp
next
  case (Cons y ys)
  have "y \<in># mset xs" using Cons.prems by (simp add: insert_subset_eq_iff)
  then have "y \<in> set xs" by simp
  then obtain j where j: "j < length xs" "xs ! j = y" by (auto simp: in_set_conv_nth)
  let ?xs' = "take j xs @ drop (Suc j) xs"
  have "mset xs = add_mset y (mset ?xs')" using remove_nth_mset[OF j(1)] j(2) by simp
  then have "mset ys \<subseteq># mset ?xs'" using Cons.prems by simp
  then obtain r' where r': "draw r' ?xs' (length ys) = ys" using Cons.IH by blast
  let ?r = "r'(length ys := j)"
  have "draw ?r ?xs' (length ys) = draw r' ?xs' (length ys)"
    by (rule draw_cong) simp
  moreover have "xs \<noteq> []" using j(1) by auto
  ultimately have "draw ?r xs (length (y # ys)) = y # ys"
    using j r' by (simp add: Let_def)
  then show ?case by blast
qed

lemma random_shuffle_complete: "mset ys = mset xs \<Longrightarrow> \<exists>r. random_shuffle r xs = ys"
proof -
  assume m: "mset ys = mset xs"
  then have "length ys = length xs" by (rule mset_eq_length)
  moreover have "\<exists>r. draw r xs (length ys) = ys" using m by (simp add: draw_complete)
  ultimately show ?thesis by (simp add: random_shuffle_def)
qed

lemma random_sample_complete:
  "mset ys \<subseteq># mset xs \<Longrightarrow> \<exists>r. random_sample r xs (length ys) = Inr ys"
proof -
  assume m: "mset ys \<subseteq># mset xs"
  then have "length ys \<le> length xs" by (metis size_mset size_mset_mono)
  moreover have "\<exists>r. draw r xs (length ys) = ys" using m by (rule draw_complete)
  ultimately show ?thesis by (auto simp: random_sample_def)
qed

section \<open>Building a question\<close>

lemma generate_context_sentence_total:
  "\<exists>s. generate_context_sentence srv verb key = Inr s"
  by (simp add: generate_context_sentence_def split: api_reply.splits)

lemma other_verbs_length:
  assumes "distinct (map Translation pool)" and "v \<in> set pool"
  shows "length (filter (\<lambda>x. Translation x \<noteq> Translation v) pool) = length pool - 1"
  using assms
proof (induction pool)
  case Nil
  then show ?case by simp
next
  case (Cons a pool)
  show ?case
  proof (cases "Translation a = Translation v")
    case True
    then have "\<forall>x\<in>set pool. Translation x \<noteq> Translation v"
      using Cons.prems(1) by (auto simp: image_iff)
    then have "filter (\<lambda>x. Translation x \<noteq> Translation v) pool = pool"
      by (simp add: filter_id_conv)
    then show ?thesis using True by simp
  next
    case False
    then have "v \<in> set pool" using Cons.prems(2) by auto
    moreover have "distinct (map Translation pool)" using Cons.prems(1) by simp
    ultimately have "length (filter (\<lambda>x. Translation x \<noteq> Translation v) pool) = length pool - 1"
      by (rule Cons.IH[rotated])
    moreover have "pool \<noteq> []" using \<open>v \<in> set pool\<close> by auto
    ultimately show ?thesis using False by (simp add: Suc_pred')
  qed
qed

lemma prepare_question_data_Inr:
  assumes "prepare_question_data e v pool key = Inr q"
  obtains s chosen where
    "generate_context_sentence (sentence_service e) (Verb v) key = Inr s"
    "random_sample (sample_rnd e) (filter (\<lambda>x. Translation x \<noteq> Translation v) pool) 4 = Inr chosen"
    "q = \<lparr>current_verb = Verb v, correct_translation = Translation v, context_sentence = s,
          q_translations = random_shuffle (shuffle_rnd e) (map Translation chosen @ [Translation v])\<rparr>"
  using assms
  by (auto simp: prepare_question_data_def Let_def split: sum.splits)

lemma random_sample_Inr:
  assumes "random_sample r xs k = Inr ys"
  shows "length ys = k \<and> mset ys \<subseteq># mset xs"
  using assms
  by (auto simp: random_sample_def length_draw mset_draw split: if_splits)

lemma count_one_more:
  assumes "a \<notin> set ds" and "mset os = add_mset a (mset ds)"
  shows "count (mset os) a = 1"
proof -
  have "count (mset ds) a = 0" using assms(1) by simp
  then show ?thesis by (simp add: assms(2))
qed

lemma prepare_options:
  assumes "prepare_question_data e v pool key = Inr q"
  shows "length (q_translations q) = 5"
    and "correct_translation q = Translation v"
    and "correct_translation q \<in> set (q_translations q)"
    and "count (mset (q_translations q)) (correct_translation q) = 1"
    and "mset (q_translations q) \<subseteq># add_mset (Translation v) (mset (map Translation pool))"
    and "distinct (map Translation pool) \<Longrightarrow> distinct (q_translations q)"
proof -
  let ?others = "filter (\<lambda>x. Translation x \<noteq> Translation v) pool"
  obtain s chosen where
    s: "generate_context_sentence (sentence_service e) (Verb v) key = Inr s" and
    c: "random_sample (sample_rnd e) ?others 4 = Inr chosen" and
    q: "q = \<lparr>current_verb = Verb v, correct_translation = Translation v, context_sentence = s,
          q_translations = random_shuffle (shuffle_rnd e) (map Translation chosen @ [Translation v])\<rparr>"
    using assms by (rule prepare_question_data_Inr)
  define ds where "ds = map Translation chosen"
  have len: "length chosen = 4" and sub: "mset chosen \<subseteq># mset ?others"
    using random_sample_Inr[OF c] by simp_all
  have opts: "mset (q_translations q) = add_mset (Translation v) (mset ds)"
    by (simp add: q mset_random_shuffle ds_def)
  show "length (q_translations q) = 5"
    by (simp add: q length_random_shuffle len)
  show cq: "correct_translation q = Translation v" by (simp add: q)
  show "correct_translation q \<in> set (q_translations q)"
    by (simp add: q set_random_shuffle)
  have "set chosen \<subseteq> set ?others" using set_mset_mono[OF sub] by simp
  then have notin: "Translation v \<notin> set ds" by (auto simp: ds_def)
  show "count (mset (q_translations q)) (correct_translation q) = 1"
    unfolding cq using notin opts by (rule count_one_more)
  have sub2: "mset ds \<subseteq># mset (map Translation ?others)"
    using sub by (simp add: image_mset_subseteq_mono ds_def)
  have sub3: "mset (map Translation ?others) \<subseteq># mset (map Translation pool)"
    by (simp add: image_mset_subseteq_mono)
  have "mset ds \<subseteq># mset (map Translation pool)"
    using sub2 sub3 by (rule subset_mset.order_trans)
  then show "mset (q_translations q) \<subseteq># add_mset (Translation v) (mset (map Translation pool))"
    unfolding opts by (simp only: mset_subset_eq_add_mset_cancel)
  show "distinct (q_translations q)" if "distinct (map Translation pool)"
  proof -
    have "distinct (map Translation ?others)" using that by (rule distinct_map_filter)
    with sub2 have "distinct ds" by (rule distinct_sub_mset)
    then have "distinct (ds @ [Translation v])" using notin by simp
    then show ?thesis by (simp add: q distinct_random_shuffle ds_def)
  qed
qed

lemma launch_empty:
  "unused_verbs (session w) = [] \<Longrightarrow>
   launch_next_question_job e w = (Done, w\<lparr>session := (session w)\<lparr>next_question_job := None\<rparr>\<rparr>)"
  by (simp add: launch_next_question_job_def)

lemma launch_nonempty:
  "unused_verbs (session w) \<noteq> [] \<Longrightarrow>
   launch_next_question_job e w =
     (Done,
      w\<lparr>threads := threads w @
            [\<lparr>arg_verb_entry = last (unused_verbs (session w)),
              arg_all_verbs = all_verbs (session w),
              arg_api_key = api_key (session w),
              supplied = e, is_alive = True, data = None\<rparr>],
        session := (session w)\<lparr>unused_verbs := butlast (unused_verbs (session w)),
                      next_question_job := Some (length (threads w))\<rparr>\<rparr>)"
  by (simp add: launch_next_question_job_def pop_def)

lemma launch_Done: "fst (launch_next_question_job e w) = Done"
  by (cases "unused_verbs (session w) = []") (simp_all add: launch_empty launch_nonempty)

lemma launch_keeps_question:
  "current_question_data (session (snd (launch_next_question_job e w)))
     = current_question_data (session w)"
  by (cases "unused_verbs (session w) = []") (simp_all add: launch_empty launch_nonempty)

lemma initialize_quiz_started:
  assumes "load_verbs upload = Some loaded" and "5 \<le> length loaded"
    and "prepare_question_data e1 (last (random_shuffle r loaded)) (random_shuffle r loaded) key = Inr q"
  shows "fst (initialize_quiz r e1 e2 upload key w) = Done"
    and "current_question_data (session (snd (initialize_quiz r e1 e2 upload key w))) = Some q"
proof -
  have ne: "random_shuffle r loaded \<noteq> []" "loaded \<noteq> []"
    using assms(2) length_random_shuffle[of r loaded] by auto
  have nl: "\<not> length loaded < 5" using assms(2) by simp
  show "fst (initialize_quiz r e1 e2 upload key w) = Done"
    using ne nl assms(1,3)
    by (simp add: initialize_quiz_def Let_def pop_def launch_Done)
  show "current_question_data (session (snd (initialize_quiz r e1 e2 upload key w))) = Some q"
    using ne nl assms(1,3)
    by (simp add: initialize_quiz_def Let_def pop_def launch_keeps_question)
qed

lemma prepare_succeeds:
  assumes "distinct (map Translation pool)" and "v \<in> set pool" and "5 \<le> length pool"
  shows "\<exists>q. prepare_question_data e v pool key = Inr q"
proof -
  have "length (filter (\<lambda>x. Translation x \<noteq> Translation v) pool) = length pool - 1"
    using assms(1,2) by (rule other_verbs_length)
  then have "\<not> length (filter (\<lambda>x. Translation x \<noteq> Translation v) pool) < 4"
    using assms(3) by simp
  moreover obtain s where "generate_context_sentence (sentence_service e) (Verb v) key = Inr s"
    using generate_context_sentence_total by blast
  ultimately show ?thesis
    by (simp add: prepare_question_data_def Let_def random_sample_def)
qed

lemma first_question_options:
  assumes "load_verbs upload = Some loaded" and "5 \<le> length loaded"
    and "distinct (map Translation loaded)"
  shows "\<exists>w' q1. initialize_quiz r e1 e2 upload key w = (Done, w')
           \<and> current_question_data (session w') = Some q1
           \<and> length (q_translations q1) = 5 \<and> distinct (q_translations q1)
           \<and> correct_translation q1 \<in> set (q_translations q1)"
proof -
  let ?verbs = "random_shuffle r loaded"
  have ne: "?verbs \<noteq> []" using assms(2) length_random_shuffle[of r loaded] by auto
  have "mset (map Translation ?verbs) = mset (map Translation loaded)"
    by (simp add: mset_random_shuffle)
  then have d: "distinct (map Translation ?verbs)"
    using assms(3) mset_eq_imp_distinct_iff by blast
  have "last ?verbs \<in> set ?verbs" using ne by simp
  moreover have "5 \<le> length ?verbs" using assms(2) by (simp add: length_random_shuffle)
  ultimately obtain q1 where q1: "prepare_question_data e1 (last ?verbs) ?verbs key = Inr q1"
    using prepare_succeeds[OF d] by blast
  have "fst (initialize_quiz r e1 e2 upload key w) = Done"
    and "current_question_data (session (snd (initialize_quiz r e1 e2 upload key w))) = Some q1"
    using initialize_quiz_started[OF assms(1,2) q1] by simp_all
  moreover have "length (q_translations q1) = 5" "distinct (q_translations q1)"
    "correct_translation q1 \<in> set (q_translations q1)"
    using prepare_options[OF q1] d by simp_all
  ultimately show ?thesis by (metis prod.collapse)
qed

text \<open>
  Claim C1, as the code has it. Every question that \<^verbatim>\<open>prepare_question_data\<close> returns
  has exactly 5 options, and the correct meaning is among them exactly once. The options
  are pairwise different when the meanings of the pool are pairwise different. For every
  upload of at least 5 pairs with pairwise different meanings, \<^verbatim>\<open>initialize_quiz\<close>
  succeeds, whatever the random draws and the service do, and the first question has 5
  pairwise different options with the correct meaning among them.
\<close>

theorem question_options:
  "(prepare_question_data e v pool key = Inr q \<longrightarrow>
      length (q_translations q) = 5
      \<and> correct_translation q = Translation v
      \<and> correct_translation q \<in> set (q_translations q)
      \<and> count (mset (q_translations q)) (correct_translation q) = 1
      \<and> (distinct (map Translation pool) \<longrightarrow> distinct (q_translations q)))
   \<and> (load_verbs upload = Some loaded \<and> 5 \<le> length loaded
        \<and> distinct (map Translation loaded) \<longrightarrow>
      (\<exists>w' q1. initialize_quiz r e1 e2 upload key' w = (Done, w')
          \<and> current_question_data (session w') = Some q1
          \<and> length (q_translations q1) = 5 \<and> distinct (q_translations q1)
          \<and> correct_translation q1 \<in> set (q_translations q1)))"
  using prepare_options[of e v pool key q] first_question_options[of upload loaded r e1 e2 key' w]
  by blast

text \<open>
  The claim without the condition on the meanings fails: with two synonyms in a pool of
  five pairs, the question for a third pair offers the shared meaning twice, also as the
  first question of the quiz.
\<close>

theorem question_options_counterexample:
  "prepare_question_data env0 \<lparr>Verb = ''essen'', Translation = ''to eat''\<rparr> synonyms_pool ''key''
     = Inr \<lparr>current_verb = ''essen'', correct_translation = ''to eat'',
            context_sentence = ''Satz mit essen'',
            q_translations = [''to go'', ''to run'', ''to begin'', ''to begin'', ''to eat'']\<rparr>
   \<and> \<not> distinct [''to go'', ''to run'', ''to begin'', ''to begin'', ''to eat'']
   \<and> 5 \<le> length synonyms_pool
   \<and> load_verbs (Some synonyms_text) = Some synonyms_pool
   \<and> map_option q_translations (current_question_data (session (snd
         (initialize_quiz always_first env0 env0 (Some synonyms_text) ''key'' initial_world))))
       = Some [''to go'', ''to run'', ''to begin'', ''to begin'', ''to eat'']"
  by code_simp

theorem question_options_witness:
  "prepare_question_data env0 \<lparr>Verb = ''f'', Translation = ''6''\<rparr> six_pool ''key''
     = Inr \<lparr>current_verb = ''f'', correct_translation = ''6'',
            context_sentence = ''Satz mit f'',
            q_translations = [''1'', ''2'', ''3'', ''4'', ''6'']\<rparr>
   \<and> distinct (map Translation six_pool)
   \<and> distinct [''1'', ''2'', ''3'', ''4'', ''6'']
   \<and> load_verbs (Some six_text) = Some six_pool \<and> 5 \<le> length six_pool
   \<and> (\<exists>w' q1. initialize_quiz always_first env0 env0 (Some six_text) ''key'' initial_world = (Done, w')
          \<and> current_question_data (session w') = Some q1
          \<and> length (q_translations q1) = 5 \<and> distinct (q_translations q1)
          \<and> correct_translation q1 \<in> set (q_translations q1))"
proof -
  have p: "prepare_question_data env0 \<lparr>Verb = ''f'', Translation = ''6''\<rparr> six_pool ''key''
     = Inr \<lparr>current_verb = ''f'', correct_translation = ''6'',
            context_sentence = ''Satz mit f'',
            q_translations = [''1'', ''2'', ''3'', ''4'', ''6'']\<rparr>"
    by code_simp
  have d: "distinct (map Translation six_pool)" by code_simp
  have l: "load_verbs (Some six_text) = Some six_pool" by code_simp
  have n: "5 \<le> length six_pool" by code_simp
  show ?thesis
    using question_options[of env0 "\<lparr>Verb = ''f'', Translation = ''6''\<rparr>" six_pool "''key''"
        "\<lparr>current_verb = ''f'', correct_translation = ''6'',
            context_sentence = ''Satz mit f'',
            q_translations = [''1'', ''2'', ''3'', ''4'', ''6'']\<rparr>" "Some six_text" six_pool
        always_first env0 env0 "''key''" initial_world] p d l n
    by simp
qed

lemma prepare_fails_iff:
  "(prepare_question_data e v pool key = Inl ValueError)
     = (length (filter (\<lambda>x. Translation x \<noteq> Translation v) pool) < 4)"
proof -
  obtain s where "generate_context_sentence (sentence_service e) (Verb v) key = Inr s"
    using generate_context_sentence_total by blast
  then show ?thesis
    by (simp add: prepare_question_data_def Let_def random_sample_def)
qed

lemma prepare_Inl_ValueError:
  "prepare_question_data e v pool key = Inl ex \<Longrightarrow> ex = ValueError"
proof -
  obtain s where "generate_context_sentence (sentence_service e) (Verb v) key = Inr s"
    using generate_context_sentence_total by blast
  then show "prepare_question_data e v pool key = Inl ex \<Longrightarrow> ex = ValueError"
    by (simp add: prepare_question_data_def Let_def random_sample_def split: if_splits)
qed

text \<open>
  Claim C2. The draw of 4 distractors raises (\<^verbatim>\<open>ValueError\<close> of \<^verbatim>\<open>random.sample\<close>)
  exactly when fewer than 4 pairs have another meaning. The claim that this cannot happen
  in a pool of at least 5 pairs is broken by the code: the upload below has 5 pairs, two
  of them with the same meaning, and for each of these two only 3 pairs are left to draw
  from, so building its question raises, whatever the random draws and the service do.
\<close>

theorem distractor_draw_fails_with_five_pairs:
  "load_verbs (Some synonyms_text) = Some synonyms_pool
   \<and> length synonyms_pool = 5
   \<and> \<lparr>Verb = ''anfangen'', Translation = ''to begin''\<rparr> \<in> set synonyms_pool
   \<and> length (filter (\<lambda>x. Translation x \<noteq> ''to begin'') synonyms_pool) = 3
   \<and> prepare_question_data e \<lparr>Verb = ''anfangen'', Translation = ''to begin''\<rparr> synonyms_pool key
       = Inl ValueError"
proof -
  have a: "load_verbs (Some synonyms_text) = Some synonyms_pool" by code_simp
  have b: "length synonyms_pool = 5" by code_simp
  have c: "\<lparr>Verb = ''anfangen'', Translation = ''to begin''\<rparr> \<in> set synonyms_pool"
    by (simp add: synonyms_pool_def)
  have d: "length (filter (\<lambda>x. Translation x \<noteq> ''to begin'') synonyms_pool) = 3"
    by (simp add: synonyms_pool_def)
  have "prepare_question_data e \<lparr>Verb = ''anfangen'', Translation = ''to begin''\<rparr> synonyms_pool key
       = Inl ValueError"
    using d by (simp add: prepare_fails_iff)
  with a b c d show ?thesis by blast
qed

section \<open>Starting the quiz\<close>

text \<open>
  Claim C3. When the upload does not yield at least 5 pairs (it cannot be read, or it
  parses to fewer than 5), \<^verbatim>\<open>initialize_quiz\<close> shows the error and returns: the state
  of the program is the one before the call, so a quiz that was not started stays not
  started, and pressing \<^verbatim>\<open>Start Quiz\<close> leaves the state as it is.
\<close>

theorem too_few_pairs_refused:
  assumes "load_verbs upload = None \<or> (\<exists>vs. load_verbs upload = Some vs \<and> length vs < 5)"
  shows "initialize_quiz r e1 e2 upload key w = (Refused, w)
         \<and> (engine_state w = NotStarted \<longrightarrow>
              engine_state (snd (initialize_quiz r e1 e2 upload key w)) = NotStarted)
         \<and> (key \<noteq> [] \<longrightarrow> step (Start_Quiz upload key r e1 e2) w = Some w)"
proof -
  have "initialize_quiz r e1 e2 upload key w = (Refused, w)"
    using assms by (auto simp: initialize_quiz_def)
  then show ?thesis by simp
qed

theorem too_few_pairs_refused_witness:
  "(\<exists>vs. load_verbs (Some two_text) = Some vs \<and> length vs < 5)
   \<and> initialize_quiz always_first env0 env0 (Some two_text) ''key'' initial_world
        = (Refused, initial_world)
   \<and> engine_state initial_world = NotStarted
   \<and> engine_state (snd (initialize_quiz always_first env0 env0 (Some two_text) ''key''
         initial_world)) = NotStarted
   \<and> step (Start_Quiz (Some two_text) ''key'' always_first env0 env0) initial_world
        = Some initial_world"
proof -
  have l: "load_verbs (Some two_text)
             = Some [\<lparr>Verb = ''a'', Translation = ''1''\<rparr>, \<lparr>Verb = ''b'', Translation = ''2''\<rparr>]"
    by code_simp
  then have h: "load_verbs (Some two_text) = None
      \<or> (\<exists>vs. load_verbs (Some two_text) = Some vs \<and> length vs < 5)"
    by simp
  have n: "engine_state initial_world = NotStarted"
    by (simp add: engine_state_def initial_world_def initial_session_def)
  show ?thesis
    using too_few_pairs_refused[OF h, of always_first env0 env0 "''key''" initial_world] l n
    by simp
qed

section \<open>The sentence service\<close>

lemma prepare_succeeds_iff:
  "(\<exists>q. prepare_question_data e v pool key = Inr q)
     = (4 \<le> length (filter (\<lambda>x. Translation x \<noteq> Translation v) pool))"
proof -
  obtain s where "generate_context_sentence (sentence_service e) (Verb v) key = Inr s"
    using generate_context_sentence_total by blast
  then show ?thesis
    by (auto simp: prepare_question_data_def Let_def random_sample_def)
qed

lemma prepare_with_sentence:
  assumes "generate_context_sentence (sentence_service e) (Verb v) key = Inr s"
    and "4 \<le> length (filter (\<lambda>x. Translation x \<noteq> Translation v) pool)"
  shows "\<exists>q. prepare_question_data e v pool key = Inr q \<and> context_sentence q = s"
  using assms by (simp add: prepare_question_data_def Let_def random_sample_def)

text \<open>
  Claim C4, as the code has it. For every term, every key and every behaviour of the
  service, \<^verbatim>\<open>generate_context_sentence\<close> returns a string and never raises. With an
  empty key and when the request raises, the string is a placeholder, which is not empty;
  otherwise it is the content the service sent, unchanged. So the text is empty only when
  the service itself answers with empty content. Whenever at least 4 pairs have another
  meaning, building the question succeeds, whatever the service does, and the question
  carries exactly that text as its context sentence.
\<close>

theorem sentence_never_raises:
  "\<exists>s. generate_context_sentence srv verb key = Inr s
      \<and> (key = [] \<longrightarrow> s = ''[API Key not provided]'')
      \<and> (\<forall>cause. key \<noteq> [] \<and> srv verb key = Raised cause \<longrightarrow>
            s = ''[Sentence generation failed for '' @ [CHR 0x27] @ verb @ [CHR 0x27]
                  @ '': '' @ cause @ '']'')
      \<and> (\<forall>text. key \<noteq> [] \<and> srv verb key = Content text \<longrightarrow> s = text)
      \<and> ((key = [] \<or> (\<exists>cause. srv verb key = Raised cause)) \<longrightarrow> s \<noteq> [])
      \<and> (s = [] \<longrightarrow> key \<noteq> [] \<and> srv verb key = Content [])
      \<and> (\<forall>e v pool. sentence_service e = srv \<and> Verb v = verb
             \<and> 4 \<le> length (filter (\<lambda>x. Translation x \<noteq> Translation v) pool) \<longrightarrow>
             (\<exists>q. prepare_question_data e v pool key = Inr q \<and> context_sentence q = s))"
proof -
  obtain s where s: "generate_context_sentence srv verb key = Inr s"
    using generate_context_sentence_total by blast
  have a: "key = [] \<longrightarrow> s = ''[API Key not provided]''"
    using s by (auto simp: generate_context_sentence_def)
  have b: "\<forall>cause. key \<noteq> [] \<and> srv verb key = Raised cause \<longrightarrow>
            s = ''[Sentence generation failed for '' @ [CHR 0x27] @ verb @ [CHR 0x27]
                  @ '': '' @ cause @ '']''"
    using s by (auto simp: generate_context_sentence_def)
  have c: "\<forall>text. key \<noteq> [] \<and> srv verb key = Content text \<longrightarrow> s = text"
    using s by (auto simp: generate_context_sentence_def)
  have d: "(key = [] \<or> (\<exists>cause. srv verb key = Raised cause)) \<longrightarrow> s \<noteq> []"
    using s by (auto simp: generate_context_sentence_def split: if_splits)
  have e: "s = [] \<longrightarrow> key \<noteq> [] \<and> srv verb key = Content []"
    using s by (auto simp: generate_context_sentence_def split: if_splits api_reply.splits)
  have f: "\<forall>e v pool. sentence_service e = srv \<and> Verb v = verb
             \<and> 4 \<le> length (filter (\<lambda>x. Translation x \<noteq> Translation v) pool) \<longrightarrow>
             (\<exists>q. prepare_question_data e v pool key = Inr q \<and> context_sentence q = s)"
    using s prepare_with_sentence by blast
  show ?thesis
    by (rule exI[of _ s]) (intro conjI; (rule s a b c d e f))
qed

text \<open>
  The prompt text is not always non-empty: the content of a successful answer is returned
  as it is, so a service that answers with empty content gives an empty context sentence,
  also in the question that is built.
\<close>

theorem sentence_never_raises_counterexample:
  "generate_context_sentence empty_service ''gehen'' ''key'' = Inr []
   \<and> prepare_question_data env_empty \<lparr>Verb = ''f'', Translation = ''6''\<rparr> six_pool ''key''
       = Inr \<lparr>current_verb = ''f'', correct_translation = ''6'', context_sentence = [],
              q_translations = [''1'', ''2'', ''3'', ''4'', ''6'']\<rparr>"
  by code_simp

theorem sentence_never_raises_witness:
  "generate_context_sentence echo_service ''gehen'' [] = Inr ''[API Key not provided]''
   \<and> failing_service ''gehen'' ''key'' = Raised ''timeout''
   \<and> generate_context_sentence failing_service ''gehen'' ''key''
       = Inr (''[Sentence generation failed for '' @ [CHR 0x27] @ ''gehen'' @ [CHR 0x27]
               @ '': timeout]'')
   \<and> echo_service ''f'' ''key'' = Content ''Satz mit f''
   \<and> generate_context_sentence echo_service ''f'' ''key'' = Inr ''Satz mit f''
   \<and> 4 \<le> length (filter (\<lambda>x. Translation x \<noteq> ''6'') six_pool)
   \<and> (\<exists>q. prepare_question_data env0 \<lparr>Verb = ''f'', Translation = ''6''\<rparr> six_pool ''key''
             = Inr q \<and> context_sentence q = ''Satz mit f'')
   \<and> (\<exists>q. prepare_question_data (env0\<lparr>sentence_service := failing_service\<rparr>)
             \<lparr>Verb = ''f'', Translation = ''6''\<rparr> six_pool ''key'' = Inr q
         \<and> context_sentence q
             = ''[Sentence generation failed for '' @ [CHR 0x27] @ ''f'' @ [CHR 0x27]
                 @ '': timeout]'')"
proof -
  have a: "failing_service ''gehen'' ''key'' = Raised ''timeout''"
      "failing_service ''f'' ''key'' = Raised ''timeout''"
    by (simp_all add: failing_service_def)
  have b: "echo_service ''f'' ''key'' = Content ''Satz mit f''"
    by (simp add: echo_service_def)
  have c: "''key'' \<noteq> []" by simp
  have d: "4 \<le> length (filter (\<lambda>x. Translation x \<noteq> ''6'') six_pool)"
    by (simp add: six_pool_def)
  have e: "sentence_service env0 = echo_service" by (simp add: env0_def)
  have f: "sentence_service (env0\<lparr>sentence_service := failing_service\<rparr>) = failing_service"
    by simp
  have g: "Verb \<lparr>Verb = ''f'', Translation = ''6''\<rparr> = ''f''"
      "Translation \<lparr>Verb = ''f'', Translation = ''6''\<rparr> = ''6''" by simp_all
  let ?f = "\<lparr>Verb = ''f'', Translation = ''6''\<rparr>"
  have d': "4 \<le> length (filter (\<lambda>x. Translation x \<noteq> Translation ?f) six_pool)"
    using d by simp
  obtain s1 where s1: "generate_context_sentence echo_service ''gehen'' [] = Inr s1"
      "[] = [] \<longrightarrow> s1 = ''[API Key not provided]''"
    using sentence_never_raises[of echo_service "''gehen''" "[]"] by blast
  then have h1: "generate_context_sentence echo_service ''gehen'' [] = Inr ''[API Key not provided]''"
    by simp
  obtain s2 where s2: "generate_context_sentence failing_service ''gehen'' ''key'' = Inr s2"
      "\<forall>cause. ''key'' \<noteq> [] \<and> failing_service ''gehen'' ''key'' = Raised cause \<longrightarrow>
            s2 = ''[Sentence generation failed for '' @ [CHR 0x27] @ ''gehen'' @ [CHR 0x27]
                  @ '': '' @ cause @ '']''"
    using sentence_never_raises[of failing_service "''gehen''" "''key''"] by blast
  have "s2 = ''[Sentence generation failed for '' @ [CHR 0x27] @ ''gehen'' @ [CHR 0x27]
                  @ '': '' @ ''timeout'' @ '']''"
    using s2(2) a(1) c by blast
  then have h2: "generate_context_sentence failing_service ''gehen'' ''key''
       = Inr (''[Sentence generation failed for '' @ [CHR 0x27] @ ''gehen'' @ [CHR 0x27]
               @ '': timeout]'')"
    using s2(1) by simp
  obtain s3 where s3: "generate_context_sentence echo_service ''f'' ''key'' = Inr s3"
      "\<forall>text. ''key'' \<noteq> [] \<and> echo_service ''f'' ''key'' = Content text \<longrightarrow> s3 = text"
      "\<forall>e v pool. sentence_service e = echo_service \<and> Verb v = ''f''
             \<and> 4 \<le> length (filter (\<lambda>x. Translation x \<noteq> Translation v) pool) \<longrightarrow>
             (\<exists>q. prepare_question_data e v pool ''key'' = Inr q \<and> context_sentence q = s3)"
    using sentence_never_raises[of echo_service "''f''" "''key''"] by blast
  have e3: "s3 = ''Satz mit f''" using s3(2) b c by blast
  have "\<exists>q. prepare_question_data env0 ?f six_pool ''key'' = Inr q \<and> context_sentence q = s3"
    using s3(3) e g(1) d' by blast
  then have h3: "generate_context_sentence echo_service ''f'' ''key'' = Inr ''Satz mit f''
      \<and> (\<exists>q. prepare_question_data env0 ?f six_pool ''key''
             = Inr q \<and> context_sentence q = ''Satz mit f'')"
    using s3(1) e3 by simp
  obtain s4 where s4:
      "\<forall>cause. ''key'' \<noteq> [] \<and> failing_service ''f'' ''key'' = Raised cause \<longrightarrow>
            s4 = ''[Sentence generation failed for '' @ [CHR 0x27] @ ''f'' @ [CHR 0x27]
                  @ '': '' @ cause @ '']''"
      "\<forall>e v pool. sentence_service e = failing_service \<and> Verb v = ''f''
             \<and> 4 \<le> length (filter (\<lambda>x. Translation x \<noteq> Translation v) pool) \<longrightarrow>
             (\<exists>q. prepare_question_data e v pool ''key'' = Inr q \<and> context_sentence q = s4)"
    using sentence_never_raises[of failing_service "''f''" "''key''"] by blast
  have e4: "s4 = ''[Sentence generation failed for '' @ [CHR 0x27] @ ''f'' @ [CHR 0x27]
                  @ '': '' @ ''timeout'' @ '']''"
    using s4(1) a(2) c by blast
  have "\<exists>q. prepare_question_data (env0\<lparr>sentence_service := failing_service\<rparr>) ?f six_pool ''key''
           = Inr q \<and> context_sentence q = s4"
    using s4(2) f g(1) d' by blast
  then have h4: "\<exists>q. prepare_question_data (env0\<lparr>sentence_service := failing_service\<rparr>)
             ?f six_pool ''key'' = Inr q
         \<and> context_sentence q
             = ''[Sentence generation failed for '' @ [CHR 0x27] @ ''f'' @ [CHR 0x27]
                 @ '': timeout]''"
    using e4 by simp
  show ?thesis using h1 h2 h3 h4 a b d by simp
qed

section \<open>Answering and advancing\<close>

text \<open>
  Claim C5. With a current question, \<^verbatim>\<open>handle_answer\<close> ends normally, records as
  correctness whether the choice equals the correct meaning of the current question,
  appends one entry (term, correct meaning, choice) to \<^verbatim>\<open>incorrect_answers\<close> exactly when
  the choice is incorrect, and leaves the pair pool (\<^verbatim>\<open>all_verbs\<close>, \<^verbatim>\<open>unused_verbs\<close>), the
  stored job and every thread as they were.
\<close>

theorem handle_answer_records:
  assumes "current_question_data (session w) = Some q"
  shows "\<exists>w'. handle_answer choice w = (Done, w')
      \<and> last_answer_was_correct (session w') = (choice = correct_translation q)
      \<and> (choice \<noteq> correct_translation q \<longrightarrow>
            incorrect_answers (session w') = incorrect_answers (session w) @
              [\<lparr>ia_Verb = current_verb q, ia_Correct_Translation = correct_translation q,
                ia_User_Choice = choice\<rparr>])
      \<and> (choice = correct_translation q \<longrightarrow>
            incorrect_answers (session w') = incorrect_answers (session w))
      \<and> show_feedback (session w')
      \<and> all_verbs (session w') = all_verbs (session w)
      \<and> unused_verbs (session w') = unused_verbs (session w)
      \<and> next_question_job (session w') = next_question_job (session w)
      \<and> threads w' = threads w
      \<and> current_question_data (session w') = current_question_data (session w)
      \<and> question_number (session w') = question_number (session w)
      \<and> quiz_running (session w') = quiz_running (session w)"
  using assms by (simp add: handle_answer_def Let_def)

theorem handle_answer_records_witness:
  "current_question_data (session synonyms_started) = Some
           \<lparr>current_verb = ''essen'', correct_translation = ''to eat'',
            context_sentence = ''Satz mit essen'',
            q_translations = [''to go'', ''to run'', ''to begin'', ''to begin'', ''to eat'']\<rparr>
   \<and> incorrect_answers (session (snd (handle_answer ''to go'' synonyms_started)))
       = [\<lparr>ia_Verb = ''essen'', ia_Correct_Translation = ''to eat'', ia_User_Choice = ''to go''\<rparr>]
   \<and> \<not> last_answer_was_correct (session (snd (handle_answer ''to go'' synonyms_started)))
   \<and> incorrect_answers (session (snd (handle_answer ''to eat'' synonyms_started))) = []
   \<and> last_answer_was_correct (session (snd (handle_answer ''to eat'' synonyms_started)))"
proof -
  have q: "current_question_data (session synonyms_started) = Some
           \<lparr>current_verb = ''essen'', correct_translation = ''to eat'',
            context_sentence = ''Satz mit essen'',
            q_translations = [''to go'', ''to run'', ''to begin'', ''to begin'', ''to eat'']\<rparr>"
    by code_simp
  have e: "incorrect_answers (session synonyms_started) = []"
    by code_simp
  show ?thesis
    using handle_answer_records[OF q, of "''to go''"] handle_answer_records[OF q, of "''to eat''"] q e
    by auto
qed

section \<open>Reading the upload\<close>

lemma split_max_nonempty: "split_max sep n s \<noteq> []"
  by (induction sep n s rule: split_max.induct) (auto split: list.splits)

lemma hd_split_max:
  "hd (split_max sep (Suc n) s) = takeWhile (\<lambda>c. c \<noteq> sep) s"
proof (induction s)
  case Nil
  show ?case by simp
next
  case (Cons c cs)
  show ?case
  proof (cases "c = sep")
    case True
    then show ?thesis by simp
  next
    case False
    obtain p ps where p: "split_max sep (Suc n) cs = p # ps"
      using split_max_nonempty[of sep "Suc n" cs] by (cases "split_max sep (Suc n) cs") auto
    with Cons.IH have "p = takeWhile (\<lambda>c. c \<noteq> sep) cs" by simp
    then show ?thesis using False p by simp
  qed
qed

lemma hd_split: "hd (split sep s) = takeWhile (\<lambda>c. c \<noteq> sep) s"
proof (cases s)
  case Nil
  then show ?thesis by (simp add: split_def)
next
  case (Cons c cs)
  then have "split sep s = split_max sep (Suc (length cs)) s" by (simp add: split_def)
  then show ?thesis by (simp only: hd_split_max)
qed

lemma split_max_once:
  "sep \<in> set s \<Longrightarrow>
     split_max sep (Suc 0) s
       = [takeWhile (\<lambda>c. c \<noteq> sep) s, tl (dropWhile (\<lambda>c. c \<noteq> sep) s)]"
  by (induction s) auto

lemma parse_line_accepts:
  assumes "CHR ''['' \<in> set line" and "CHR '']'' \<in> set line"
  shows "parse_line line =
           Inr [\<lparr>Verb = strip (takeWhile (\<lambda>c. c \<noteq> CHR ''['') line),
                 Translation = strip (takeWhile (\<lambda>c. c \<noteq> CHR '']'')
                                  (tl (dropWhile (\<lambda>c. c \<noteq> CHR ''['') line)))\<rparr>]"
  using assms by (simp add: parse_line_def split_max_once hd_split del: split_max.simps)

lemma parse_line_skips:
  "\<not> (CHR ''['' \<in> set line \<and> CHR '']'' \<in> set line) \<Longrightarrow> parse_line line = Inr []"
  unfolding parse_line_def by (simp only: if_False)

lemma parse_line_never_raises: "\<exists>vs. parse_line line = Inr vs"
  by (cases "CHR ''['' \<in> set line \<and> CHR '']'' \<in> set line")
     (simp_all add: parse_line_accepts parse_line_skips)

lemma parse_lines_concat:
  "parse_lines ls = Inr (concat (map (\<lambda>l. case parse_line l of Inr vs \<Rightarrow> vs | Inl ex \<Rightarrow> []) ls))"
proof (induction ls)
  case Nil
  show ?case by simp
next
  case (Cons l ls)
  obtain vs where "parse_line l = Inr vs" using parse_line_never_raises by blast
  then show ?case using Cons.IH by simp
qed

text \<open>
  Claim C9. A line that holds both brackets is cut at its first \<open>[\<close>: the term is the
  text before it and the meaning is the text after it up to the first \<open>]\<close> that follows
  (to the end of the line when none follows), both stripped of surrounding whitespace.
  Nothing else is checked, every other line is skipped, and the pairs of the upload are
  those of its lines, in the order of the lines, equal pairs included. In the example a
  \<open>]\<close> stands before the \<open>[\<close>, a line starts with \<open>[\<close> (empty term), a meaning is
  empty, and a line occurs twice.
\<close>

theorem load_verbs_parsing:
  "(CHR ''['' \<in> set line \<and> CHR '']'' \<in> set line \<longrightarrow>
      parse_line line =
        Inr [\<lparr>Verb = strip (takeWhile (\<lambda>c. c \<noteq> CHR ''['') line),
              Translation = strip (takeWhile (\<lambda>c. c \<noteq> CHR '']'')
                               (tl (dropWhile (\<lambda>c. c \<noteq> CHR ''['') line)))\<rparr>])
   \<and> (\<not> (CHR ''['' \<in> set line \<and> CHR '']'' \<in> set line) \<longrightarrow> parse_line line = Inr [])
   \<and> load_verbs (Some t) =
       Some (concat (map (\<lambda>l. case parse_line l of Inr vs \<Rightarrow> vs | Inl ex \<Rightarrow> []) (readlines t)))
   \<and> load_verbs (Some ''] a [b\<newline>[x]\<newline>a []\<newline>no brackets\<newline>a []\<newline>'') =
       Some [\<lparr>Verb = ''] a'', Translation = ''b''\<rparr>, \<lparr>Verb = [], Translation = ''x''\<rparr>,
             \<lparr>Verb = ''a'', Translation = []\<rparr>, \<lparr>Verb = ''a'', Translation = []\<rparr>]"
proof -
  have "load_verbs (Some ''] a [b\<newline>[x]\<newline>a []\<newline>no brackets\<newline>a []\<newline>'') =
       Some [\<lparr>Verb = ''] a'', Translation = ''b''\<rparr>, \<lparr>Verb = [], Translation = ''x''\<rparr>,
             \<lparr>Verb = ''a'', Translation = []\<rparr>, \<lparr>Verb = ''a'', Translation = []\<rparr>]"
    by code_simp
  moreover have "load_verbs (Some t) =
       Some (concat (map (\<lambda>l. case parse_line l of Inr vs \<Rightarrow> vs | Inl ex \<Rightarrow> []) (readlines t)))"
    by (simp add: load_verbs_def parse_lines_concat)
  ultimately show ?thesis
    using parse_line_accepts[of line] parse_line_skips[of line] by blast
qed

theorem load_verbs_parsing_witness:
  "CHR ''['' \<in> set ''] a [b'' \<and> CHR '']'' \<in> set ''] a [b''
   \<and> parse_line ''] a [b'' = Inr [\<lparr>Verb = ''] a'', Translation = ''b''\<rparr>]
   \<and> \<not> (CHR ''['' \<in> set ''no brackets'' \<and> CHR '']'' \<in> set ''no brackets'')
   \<and> parse_line ''no brackets'' = Inr []
   \<and> parse_line ''[x]'' = Inr [\<lparr>Verb = [], Translation = ''x''\<rparr>]"
proof -
  have a: "strip (takeWhile (\<lambda>c. c \<noteq> CHR ''['') ''] a [b'') = ''] a''" by code_simp
  have b: "strip (takeWhile (\<lambda>c. c \<noteq> CHR '']'') (tl (dropWhile (\<lambda>c. c \<noteq> CHR ''['') ''] a [b'')))
             = ''b''" by code_simp
  have c: "strip (takeWhile (\<lambda>c. c \<noteq> CHR ''['') ''[x]'') = []" by code_simp
  have d: "strip (takeWhile (\<lambda>c. c \<noteq> CHR '']'') (tl (dropWhile (\<lambda>c. c \<noteq> CHR ''['') ''[x]'')))
             = ''x''" by code_simp
  show ?thesis
    using load_verbs_parsing[of "''] a [b''"] load_verbs_parsing[of "''no brackets''"]
      load_verbs_parsing[of "''[x]''"] a b c d
    by simp
qed

lemma worker_not_alive: "\<not> is_alive (worker_prepare_question t)"
  by (simp add: worker_prepare_question_def split: sum.splits)

lemma join_session: "session (join tid w) = session w"
  by (simp add: join_def thread_finishes_def)

lemma join_length: "length (threads (join tid w)) = length (threads w)"
  by (simp add: join_def thread_finishes_def)

lemma join_not_alive: "tid < length (threads w) \<Longrightarrow> \<not> is_alive (threads (join tid w) ! tid)"
  by (simp add: join_def thread_finishes_def worker_not_alive)

lemma join_other: "i \<noteq> tid \<Longrightarrow> threads (join tid w) ! i = threads w ! i"
  by (simp add: join_def thread_finishes_def)

lemma next_question_Some:
  "next_question_job (session w) = Some tid \<Longrightarrow>
   next_question e w =
     launch_next_question_job e
       ((join tid w)\<lparr>session := (session w)
          \<lparr>current_question_data := data (threads (join tid w) ! tid),
           question_number := question_number (session w) + 1,
           show_feedback := False\<rparr>\<rparr>)"
  by (simp add: next_question_def Let_def join_session)

lemma next_question_result:
  assumes "next_question_job (session w) = Some tid" and "tid < length (threads w)"
  shows "\<exists>w'. next_question e w = (Done, w')
      \<and> \<not> is_alive (threads w' ! tid)
      \<and> threads w' ! tid = threads (join tid w) ! tid
      \<and> current_question_data (session w') = data (threads (join tid w) ! tid)
      \<and> question_number (session w') = question_number (session w) + 1
      \<and> \<not> show_feedback (session w')
      \<and> quiz_running (session w') = quiz_running (session w)
      \<and> incorrect_answers (session w') = incorrect_answers (session w)
      \<and> (unused_verbs (session w) = [] \<longrightarrow>
            next_question_job (session w') = None \<and> threads w' = threads (join tid w))
      \<and> (unused_verbs (session w) \<noteq> [] \<longrightarrow>
            next_question_job (session w') = Some (length (threads w))
            \<and> threads w' = threads (join tid w) @
                 [\<lparr>arg_verb_entry = last (unused_verbs (session w)),
                   arg_all_verbs = all_verbs (session w),
                   arg_api_key = api_key (session w),
                   supplied = e, is_alive = True, data = None\<rparr>]
            \<and> unused_verbs (session w') = butlast (unused_verbs (session w)))"
proof (cases "unused_verbs (session w) = []")
  case True
  then show ?thesis
    using assms join_not_alive[OF assms(2)]
    by (simp add: next_question_Some launch_empty)
next
  case False
  then show ?thesis
    using assms join_not_alive[OF assms(2)]
    by (simp add: next_question_Some launch_nonempty join_length nth_append)
qed

text \<open>
  Claim C6. The primary button of the feedback branch. While a job is stored, it calls
  \<^verbatim>\<open>next_question\<close>: the thread of the job is joined (it has finished afterwards), the
  content of its result cell becomes the current question, the question number grows by
  exactly one, and a new thread is started exactly when unused pairs are left, for the
  last of them, which leaves the unused pairs. While no job is stored, the button ends
  the quiz (\<open>Finished\<close>), and no thread is started; \<^verbatim>\<open>next_question\<close> itself would
  leave the state as it is.
\<close>

theorem advance_behaviour:
  "(next_question_job (session w) = Some tid \<and> tid < length (threads w) \<longrightarrow>
      (\<exists>w'. advance e w = (Done, w')
        \<and> \<not> is_alive (threads w' ! tid)
        \<and> threads w' ! tid = threads (join tid w) ! tid
        \<and> current_question_data (session w') = data (threads (join tid w) ! tid)
        \<and> question_number (session w') = question_number (session w) + 1
        \<and> \<not> show_feedback (session w')
        \<and> quiz_running (session w') = quiz_running (session w)
        \<and> (unused_verbs (session w) = [] \<longrightarrow>
              next_question_job (session w') = None \<and> threads w' = threads (join tid w))
        \<and> (unused_verbs (session w) \<noteq> [] \<longrightarrow>
              next_question_job (session w') = Some (length (threads w))
              \<and> threads w' = threads (join tid w) @
                   [\<lparr>arg_verb_entry = last (unused_verbs (session w)),
                     arg_all_verbs = all_verbs (session w),
                     arg_api_key = api_key (session w),
                     supplied = e, is_alive = True, data = None\<rparr>]
              \<and> unused_verbs (session w') = butlast (unused_verbs (session w)))))
   \<and> (next_question_job (session w) = None \<longrightarrow>
      (\<exists>w'. advance e w = (Done, w')
        \<and> \<not> quiz_running (session w')
        \<and> (total_verbs (session w) \<noteq> None \<longrightarrow> engine_state w' = Finished)
        \<and> next_question_job (session w') = None
        \<and> threads w' = threads w
        \<and> unused_verbs (session w') = unused_verbs (session w)
        \<and> next_question e w = (Done, w)))"
proof -
  have "\<exists>w'. advance e w = (Done, w')
        \<and> \<not> quiz_running (session w')
        \<and> (total_verbs (session w) \<noteq> None \<longrightarrow> engine_state w' = Finished)
        \<and> next_question_job (session w') = None
        \<and> threads w' = threads w
        \<and> unused_verbs (session w') = unused_verbs (session w)
        \<and> next_question e w = (Done, w)"
    if "next_question_job (session w) = None"
    using that by (simp add: advance_def finish_quiz_def engine_state_def next_question_def)
  moreover have "advance e w = next_question e w" if "next_question_job (session w) = Some tid"
    using that by (simp add: advance_def)
  ultimately show ?thesis
    using next_question_result[of w tid e] by auto
qed

theorem advance_behaviour_witness:
  "next_question_job (session six_answered) = Some 0
   \<and> 0 < length (threads six_answered)
   \<and> unused_verbs (session six_answered) \<noteq> []
   \<and> fst (advance env0 six_answered) = Done
   \<and> question_number (session (snd (advance env0 six_answered))) = 2
   \<and> map_option current_verb (current_question_data (session (snd (advance env0 six_answered))))
       = Some ''e''
   \<and> next_question_job (session (snd (advance env0 six_answered))) = Some 1
   \<and> map is_alive (threads (snd (advance env0 six_answered))) = [False, True]
   \<and> run six_trace initial_world = Some six_last
   \<and> next_question_job (session six_last) = None
   \<and> total_verbs (session six_last) \<noteq> None
   \<and> unused_verbs (session six_last) = []
   \<and> engine_state six_last = Running
   \<and> engine_state (snd (advance env0 six_last)) = Finished
   \<and> threads (snd (advance env0 six_last)) = threads six_last"
proof -
  have a: "next_question_job (session six_answered) = Some 0" by code_simp
  have b: "0 < length (threads six_answered)" by code_simp
  have c: "unused_verbs (session six_answered) \<noteq> []" by code_simp
  have d: "question_number (session six_answered) = 1" by code_simp
  have e: "map_option current_verb (data (threads (join 0 six_answered) ! 0)) = Some ''e''"
    by code_simp
  have f: "length (threads six_answered) = 1" by code_simp
  have g: "map_option (\<lambda>w'. (next_question_job (session w'), total_verbs (session w'),
                unused_verbs (session w'), engine_state w'))
             (run six_trace initial_world) = Some (None, Some 6, [], Running)"
    by code_simp
  then have h: "run six_trace initial_world = Some six_last"
    by (auto simp: six_last_def)
  have i: "next_question_job (session six_last) = None"
    and j: "total_verbs (session six_last) \<noteq> None"
    and k: "unused_verbs (session six_last) = []"
    and l: "engine_state six_last = Running"
    using g h by auto
  have m: "length (threads (join 0 six_answered)) = 1" by (simp add: join_length f)
  have n: "map is_alive (threads (join 0 six_answered) @
                 [\<lparr>arg_verb_entry = last (unused_verbs (session six_answered)),
                   arg_all_verbs = all_verbs (session six_answered),
                   arg_api_key = api_key (session six_answered),
                   supplied = env0, is_alive = True, data = None\<rparr>]) = [False, True]"
    by code_simp
  show ?thesis
    using advance_behaviour[of six_answered 0 env0] advance_behaviour[of six_last 0 env0]
      a b c d e f h i j k l n
    by auto
qed

text \<open>
  Claim C10. When the worker of the stored job raises, so that its result cell still
  holds \<^verbatim>\<open>None\<close>, \<^verbatim>\<open>next_question\<close> ends normally all the same: the join returns, the
  current question becomes \<^verbatim>\<open>None\<close>, the question number grows by one, and the script
  can show no question afterwards.
\<close>

theorem worker_exception_yields_None:
  assumes "next_question_job (session w) = Some tid" and "tid < length (threads w)"
    and "data (threads w ! tid) = None"
    and "prepare_question_data (supplied (threads w ! tid)) (arg_verb_entry (threads w ! tid))
           (arg_all_verbs (threads w ! tid)) (arg_api_key (threads w ! tid)) = Inl ex"
  shows "\<exists>w'. next_question e w = (Done, w')
      \<and> current_question_data (session w') = None
      \<and> question_number (session w') = question_number (session w) + 1
      \<and> \<not> show_feedback (session w')
      \<and> quiz_running (session w') = quiz_running (session w)
      \<and> \<not> is_alive (threads w' ! tid)
      \<and> data (threads w' ! tid) = None
      \<and> \<not> question_shown w'"
proof -
  have "data (threads (join tid w) ! tid) = None"
    using assms(2,3,4)
    by (simp add: join_def thread_finishes_def worker_prepare_question_def)
  moreover obtain w' where w': "next_question e w = (Done, w')"
      "\<not> is_alive (threads w' ! tid)"
      "threads w' ! tid = threads (join tid w) ! tid"
      "current_question_data (session w') = data (threads (join tid w) ! tid)"
      "question_number (session w') = question_number (session w) + 1"
      "\<not> show_feedback (session w')"
      "quiz_running (session w') = quiz_running (session w)"
    using next_question_result[OF assms(1,2), of e] by blast
  ultimately show ?thesis by (simp add: question_shown_def)
qed

theorem worker_exception_yields_None_witness:
  "run [Start_Quiz (Some synonyms_text) ''key'' always_first env0 env0, Choose 0] initial_world
     = Some synonyms_answered
   \<and> next_question_job (session synonyms_answered) = Some 0
   \<and> 0 < length (threads synonyms_answered)
   \<and> arg_verb_entry (threads synonyms_answered ! 0) = \<lparr>Verb = ''anfangen'', Translation = ''to begin''\<rparr>
   \<and> is_alive (threads synonyms_answered ! 0)
   \<and> prepare_question_data (supplied (threads synonyms_answered ! 0))
        (arg_verb_entry (threads synonyms_answered ! 0))
        (arg_all_verbs (threads synonyms_answered ! 0))
        (arg_api_key (threads synonyms_answered ! 0)) = Inl ValueError
   \<and> fst (next_question env0 synonyms_answered) = Done
   \<and> current_question_data (session (snd (next_question env0 synonyms_answered))) = None
   \<and> question_number (session (snd (next_question env0 synonyms_answered))) = 2
   \<and> quiz_running (session (snd (next_question env0 synonyms_answered)))"
proof -
  have q: "current_question_data (session synonyms_started) = Some
           \<lparr>current_verb = ''essen'', correct_translation = ''to eat'',
            context_sentence = ''Satz mit essen'',
            q_translations = [''to go'', ''to run'', ''to begin'', ''to begin'', ''to eat'']\<rparr>"
    by code_simp
  have s: "question_shown synonyms_started \<and> \<not> show_feedback (session synonyms_started)"
    by code_simp
  have r: "run [Start_Quiz (Some synonyms_text) ''key'' always_first env0 env0, Choose 0]
             initial_world = Some synonyms_answered"
    using q s by (simp add: synonyms_started_def[symmetric] synonyms_answered_def)
  have a: "next_question_job (session synonyms_answered) = Some 0" by code_simp
  have b: "0 < length (threads synonyms_answered)" by code_simp
  have c: "data (threads synonyms_answered ! 0) = None" by code_simp
  have d: "prepare_question_data (supplied (threads synonyms_answered ! 0))
        (arg_verb_entry (threads synonyms_answered ! 0))
        (arg_all_verbs (threads synonyms_answered ! 0))
        (arg_api_key (threads synonyms_answered ! 0)) = Inl ValueError" by code_simp
  have f: "arg_verb_entry (threads synonyms_answered ! 0)
             = \<lparr>Verb = ''anfangen'', Translation = ''to begin''\<rparr>" by code_simp
  have g: "is_alive (threads synonyms_answered ! 0)" by code_simp
  have h: "question_number (session synonyms_answered) = 1" by code_simp
  have i: "quiz_running (session synonyms_answered)" by code_simp
  show ?thesis
    using worker_exception_yields_None[OF a b c d, of env0] r a b f g d h i
    by auto
qed

section \<open>The pair pool and the background jobs\<close>

lemma pops_rev:
  "n \<le> length xs \<Longrightarrow> pops n xs = Inr (take n (rev xs), rev (drop n (rev xs)))"
proof (induction n arbitrary: xs)
  case 0
  show ?case by simp
next
  case (Suc n)
  then obtain ys y where xs: "xs = ys @ [y]"
    by (cases xs rule: rev_cases) auto
  then have "n \<le> length ys" using Suc.prems by simp
  then have "pops n ys = Inr (take n (rev ys), rev (drop n (rev ys)))" by (rule Suc.IH)
  then show ?case by (simp add: xs pop_def)
qed

lemma pops_too_many: "length xs < n \<Longrightarrow> pops n xs = Inl IndexError"
proof (induction n arbitrary: xs)
  case 0
  then show ?case by simp
next
  case (Suc n)
  show ?case
  proof (cases xs rule: rev_cases)
    case Nil
    then show ?thesis by (simp add: pop_def)
  next
    case (snoc ys y)
    then have "length ys < n" using Suc.prems by simp
    then have "pops n ys = Inl IndexError" by (rule Suc.IH)
    then show ?thesis by (simp add: snoc pop_def)
  qed
qed

lemma pops_tail:
  "n \<le> length xs \<Longrightarrow>
     pops n xs = Inr (rev (drop (length xs - n) xs), take (length xs - n) xs)"
  by (simp add: pops_rev take_rev drop_rev)

lemma rev_drop_positions:
  assumes "n \<le> length xs"
  shows "rev (drop (length xs - n) xs) = map (\<lambda>i. xs ! (length xs - 1 - i)) [0..<n]"
proof (rule nth_equalityI)
  show "length (rev (drop (length xs - n) xs)) = length (map (\<lambda>i. xs ! (length xs - 1 - i)) [0..<n])"
    using assms by simp
next
  fix i
  assume "i < length (rev (drop (length xs - n) xs))"
  then have i: "i < n" using assms by simp
  then have "rev (drop (length xs - n) xs) ! i = drop (length xs - n) xs ! (n - Suc i)"
    using assms by (simp add: rev_nth)
  also have "\<dots> = xs ! (length xs - n + (n - Suc i))"
    using assms i by simp
  also have "length xs - n + (n - Suc i) = length xs - 1 - i"
    using assms i by simp
  finally show "rev (drop (length xs - n) xs) ! i = map (\<lambda>i. xs ! (length xs - 1 - i)) [0..<n] ! i"
    using i by simp
qed

lemma pops_result:
  assumes "pops n xs = Inr (popped, rest)"
  shows "rest @ rev popped = xs" and "length popped = n" and "mset popped \<subseteq># mset xs"
    and "distinct xs \<Longrightarrow> distinct popped"
    and "popped = map (\<lambda>i. xs ! (length xs - 1 - i)) [0..<n]"
proof -
  have n: "n \<le> length xs"
    using assms pops_too_many[of xs n] by (cases "n \<le> length xs") auto
  then have p: "popped = rev (drop (length xs - n) xs)" and r: "rest = take (length xs - n) xs"
    using assms by (simp_all add: pops_tail)
  show "rest @ rev popped = xs" by (simp add: p r)
  show "length popped = n" using n by (simp add: p)
  have "mset xs = mset rest + mset popped"
    using \<open>rest @ rev popped = xs\<close> by (metis mset_append mset_rev)
  then show "mset popped \<subseteq># mset xs" by simp
  show "distinct popped" if "distinct xs" using that by (simp add: p)
  show "popped = map (\<lambda>i. xs ! (length xs - 1 - i)) [0..<n]"
    unfolding p using n by (rule rev_drop_positions)
qed

lemma prefix_iff: "(take (length u) a = u) = (\<exists>p. a = u @ p)"
proof
  assume "take (length u) a = u"
  then have "a = u @ drop (length u) a" by (metis append_take_drop_id)
  then show "\<exists>p. a = u @ p" ..
next
  assume "\<exists>p. a = u @ p"
  then show "take (length u) a = u" by auto
qed

lemma butlast_prefix:
  assumes "take (length u) a = u"
  shows "take (length (butlast u)) a = butlast u"
proof (cases "u = []")
  case True
  then show ?thesis by simp
next
  case False
  obtain p where "a = u @ p" using assms prefix_iff by blast
  then have "a = butlast u @ (last u # p)" using False by simp
  then show ?thesis by (simp only: prefix_iff) blast
qed

lemma launch_prefix:
  "unused_is_prefix w \<Longrightarrow> unused_is_prefix (snd (launch_next_question_job e w))"
proof (cases "unused_verbs (session w) = []")
  case True
  assume "unused_is_prefix w"
  then show ?thesis using True by (simp add: launch_empty unused_is_prefix_def)
next
  case False
  assume "unused_is_prefix w"
  then have "take (length (butlast (unused_verbs (session w)))) (all_verbs (session w))
      = butlast (unused_verbs (session w))"
    unfolding unused_is_prefix_def by (rule butlast_prefix)
  then show ?thesis using False
    by (simp add: launch_nonempty unused_is_prefix_def del: length_butlast)
qed

lemma initialize_quiz_refused:
  "load_verbs upload = None \<or> (\<exists>vs. load_verbs upload = Some vs \<and> length vs < 5) \<Longrightarrow>
   initialize_quiz r e1 e2 upload key w = (Refused, w)"
  by (auto simp: initialize_quiz_def)

lemma initialize_quiz_accepted:
  assumes "load_verbs upload = Some loaded" and "5 \<le> length loaded"
  shows "initialize_quiz r e1 e2 upload key w =
     (case prepare_question_data e1 (last (random_shuffle r loaded)) (random_shuffle r loaded) key of
        Inl ex \<Rightarrow>
          (Raises ex,
           w\<lparr>session := (session w)
               \<lparr>all_verbs := random_shuffle r loaded,
                total_verbs := Some (length loaded),
                incorrect_answers := [], question_number := 1, api_key := key,
                quiz_running := True, show_feedback := False,
                unused_verbs := butlast (random_shuffle r loaded)\<rparr>\<rparr>)
      | Inr q \<Rightarrow>
          launch_next_question_job e2
            (w\<lparr>session := (session w)
               \<lparr>all_verbs := random_shuffle r loaded,
                total_verbs := Some (length loaded),
                incorrect_answers := [], question_number := 1, api_key := key,
                quiz_running := True, show_feedback := False,
                unused_verbs := butlast (random_shuffle r loaded),
                current_question_data := Some q\<rparr>\<rparr>))"
proof -
  have ne: "random_shuffle r loaded \<noteq> []" "loaded \<noteq> []"
    using assms(2) length_random_shuffle[of r loaded] by auto
  have nl: "\<not> length loaded < 5" using assms(2) by simp
  show ?thesis
    using ne nl assms(1)
    by (simp add: initialize_quiz_def Let_def pop_def length_random_shuffle split: sum.splits)
qed

lemma initialize_prefix:
  "unused_is_prefix w \<Longrightarrow> unused_is_prefix (snd (initialize_quiz r e1 e2 upload key w))"
proof -
  assume w: "unused_is_prefix w"
  show ?thesis
  proof (cases "load_verbs upload = None \<or> (\<exists>vs. load_verbs upload = Some vs \<and> length vs < 5)")
    case True
    then show ?thesis using w by (simp add: initialize_quiz_refused)
  next
    case False
    then obtain loaded where l: "load_verbs upload = Some loaded" "5 \<le> length loaded"
      by (cases "load_verbs upload") auto
    let ?verbs = "random_shuffle r loaded"
    have b: "take (length (butlast ?verbs)) ?verbs = butlast ?verbs"
      by (rule butlast_prefix) simp
    show ?thesis
    proof (cases "prepare_question_data e1 (last ?verbs) ?verbs key")
      case (Inl ex)
      then show ?thesis using b
        by (simp add: initialize_quiz_accepted[OF l] unused_is_prefix_def del: length_butlast)
    next
      case (Inr q)
      have "unused_is_prefix (w\<lparr>session := (session w)
               \<lparr>all_verbs := ?verbs,
                total_verbs := Some (length loaded),
                incorrect_answers := [], question_number := 1, api_key := key,
                quiz_running := True, show_feedback := False,
                unused_verbs := butlast ?verbs,
                current_question_data := Some q\<rparr>\<rparr>)"
        using b by (simp add: unused_is_prefix_def del: length_butlast)
      then show ?thesis
        using Inr by (simp add: initialize_quiz_accepted[OF l] launch_prefix)
    qed
  qed
qed

lemma next_question_prefix:
  "unused_is_prefix w \<Longrightarrow> unused_is_prefix (snd (next_question e w))"
proof (cases "next_question_job (session w)")
  case None
  assume "unused_is_prefix w"
  then show ?thesis using None by (simp add: next_question_def)
next
  case (Some tid)
  assume "unused_is_prefix w"
  then have "unused_is_prefix ((join tid w)\<lparr>session := (session w)
          \<lparr>current_question_data := data (threads (join tid w) ! tid),
           question_number := question_number (session w) + 1,
           show_feedback := False\<rparr>\<rparr>)"
    by (simp add: unused_is_prefix_def)
  then show ?thesis
    by (simp only: next_question_Some[OF Some] launch_prefix)
qed

lemma handle_answer_prefix:
  "unused_is_prefix w \<Longrightarrow> unused_is_prefix (snd (handle_answer c w))"
  by (simp add: handle_answer_def unused_is_prefix_def Let_def split: option.splits)

lemma step_prefix:
  assumes "unused_is_prefix w" and "step ev w = Some w'"
  shows "unused_is_prefix w'"
proof (cases ev)
  case (Start_Quiz upload key r e1 e2)
  then show ?thesis using assms initialize_prefix[of w r e1 e2 upload key]
    by (auto split: if_splits)
next
  case End_Quiz_Now
  then show ?thesis using assms
    by (auto simp: finish_quiz_def unused_is_prefix_def split: if_splits)
next
  case Start_Over
  then show ?thesis using assms
    by (auto simp: unused_is_prefix_def initial_session_def split: if_splits)
next
  case (Choose i)
  then show ?thesis using assms handle_answer_prefix[of w]
    by (auto split: option.splits if_splits)
next
  case (Next_Question e)
  then show ?thesis using assms next_question_prefix[of w e]
    by (auto split: if_splits)
next
  case Finish_Quiz
  then show ?thesis using assms
    by (auto simp: finish_quiz_def unused_is_prefix_def split: if_splits)
next
  case (Thread_Finishes tid)
  then show ?thesis using assms
    by (auto simp: thread_finishes_def unused_is_prefix_def split: if_splits)
qed

lemma run_prefix:
  "unused_is_prefix w \<Longrightarrow> run evs w = Some w' \<Longrightarrow> unused_is_prefix w'"
proof (induction evs arbitrary: w)
  case Nil
  then show ?case by simp
next
  case (Cons ev evs)
  then obtain w1 where s: "step ev w = Some w1" and r: "run evs w1 = Some w'"
    by (auto split: option.splits)
  have "unused_is_prefix w1" using Cons.prems(1) s by (rule step_prefix)
  then show ?case using r by (rule Cons.IH)
qed

lemma initial_prefix: "unused_is_prefix initial_world"
  by (simp add: unused_is_prefix_def initial_world_def initial_session_def)

lemma launch_pops_first:
  assumes "unused_verbs (session w) \<noteq> []"
  shows "\<exists>w' t. launch_next_question_job e w = (Done, w') \<and> threads w' = threads w @ [t]
      \<and> is_alive t \<and> data t = None
      \<and> arg_verb_entry t = last (unused_verbs (session w))
      \<and> unused_verbs (session w) = unused_verbs (session w') @ [arg_verb_entry t]
      \<and> next_question_job (session w') = Some (length (threads w))
      \<and> all_verbs (session w') = all_verbs (session w)
      \<and> current_question_data (session w') = current_question_data (session w)"
  using assms by (simp add: launch_nonempty)

lemma launch_nothing_left:
  assumes "unused_verbs (session w) = []"
  shows "\<exists>w'. launch_next_question_job e w = (Done, w') \<and> threads w' = threads w
      \<and> next_question_job (session w') = None"
  using assms by (simp add: launch_empty)

lemma prepare_question_data_fields:
  assumes "prepare_question_data e v pool key = Inr q"
  shows "current_verb q = Verb v" and "correct_translation q = Translation v"
proof -
  obtain s chosen where
    "generate_context_sentence (sentence_service e) (Verb v) key = Inr s"
    "random_sample (sample_rnd e) (filter (\<lambda>x. Translation x \<noteq> Translation v) pool) 4 = Inr chosen"
    "q = \<lparr>current_verb = Verb v, correct_translation = Translation v, context_sentence = s,
          q_translations = random_shuffle (shuffle_rnd e) (map Translation chosen @ [Translation v])\<rparr>"
    using assms by (rule prepare_question_data_Inr)
  then show "current_verb q = Verb v" and "correct_translation q = Translation v"
    by simp_all
qed

lemma initialize_quiz_pops:
  assumes l: "load_verbs upload = Some loaded" "5 \<le> length loaded"
    and d: "initialize_quiz r e1 e2 upload key w0 = (Done, w1)"
  shows "mset (all_verbs (session w1)) = mset loaded"
    and "\<exists>t q v1. threads w1 = threads w0 @ [t]
           \<and> current_question_data (session w1) = Some q
           \<and> all_verbs (session w1) = unused_verbs (session w1) @ [arg_verb_entry t, v1]
           \<and> current_verb q = Verb v1 \<and> correct_translation q = Translation v1"
proof -
  let ?verbs = "random_shuffle r loaded"
  have len: "length ?verbs = length loaded" by (rule length_random_shuffle)
  then have ne1: "?verbs \<noteq> []" using l(2) by auto
  have "length (butlast ?verbs) = length loaded - 1" using len by simp
  then have "length (butlast ?verbs) \<noteq> 0" using l(2) by simp
  then have ne2: "butlast ?verbs \<noteq> []" by (simp only: length_0_conv) simp
  note ne = ne1 ne2
  obtain q where q: "prepare_question_data e1 (last ?verbs) ?verbs key = Inr q"
    using d by (cases "prepare_question_data e1 (last ?verbs) ?verbs key")
      (simp_all add: initialize_quiz_accepted[OF l])
  let ?w = "w0\<lparr>session := (session w0)
               \<lparr>all_verbs := ?verbs,
                total_verbs := Some (length loaded),
                incorrect_answers := [], question_number := 1, api_key := key,
                quiz_running := True, show_feedback := False,
                unused_verbs := butlast ?verbs,
                current_question_data := Some q\<rparr>\<rparr>"
  have w1: "launch_next_question_job e2 ?w = (Done, w1)"
    using d q by (simp add: initialize_quiz_accepted[OF l])
  have u: "unused_verbs (session ?w) \<noteq> []" using ne by simp
  obtain t where t: "threads w1 = threads ?w @ [t]"
      "unused_verbs (session ?w) = unused_verbs (session w1) @ [arg_verb_entry t]"
      "all_verbs (session w1) = all_verbs (session ?w)"
      "current_question_data (session w1) = current_question_data (session ?w)"
  proof -
    obtain w' t where "launch_next_question_job e2 ?w = (Done, w')"
      and f: "threads w' = threads ?w @ [t]"
        "unused_verbs (session ?w) = unused_verbs (session w') @ [arg_verb_entry t]"
        "all_verbs (session w') = all_verbs (session ?w)"
        "current_question_data (session w') = current_question_data (session ?w)"
      using launch_pops_first[OF u, of e2] by blast
    then have "w' = w1" using w1 by (simp only: prod.inject)
    then show ?thesis using that f by blast
  qed
  have a: "all_verbs (session w1) = ?verbs" using t(3) by simp
  show "mset (all_verbs (session w1)) = mset loaded"
    by (simp only: a mset_random_shuffle)
  have "butlast ?verbs = unused_verbs (session w1) @ [arg_verb_entry t]" using t(2) by simp
  then have "?verbs = (unused_verbs (session w1) @ [arg_verb_entry t]) @ [last ?verbs]"
    using ne(1) by (metis append_butlast_last_id)
  then have b: "all_verbs (session w1) = unused_verbs (session w1) @ [arg_verb_entry t, last ?verbs]"
    using a by simp
  have c: "current_verb q = Verb (last ?verbs)" "correct_translation q = Translation (last ?verbs)"
    using prepare_question_data_fields[OF q] by simp_all
  have "current_question_data (session w1) = Some q" using t(4) by simp
  moreover have "threads w1 = threads w0 @ [t]" using t(1) by simp
  ultimately show "\<exists>t q v1. threads w1 = threads w0 @ [t]
           \<and> current_question_data (session w1) = Some q
           \<and> all_verbs (session w1) = unused_verbs (session w1) @ [arg_verb_entry t, v1]
           \<and> current_verb q = Verb v1 \<and> correct_translation q = Translation v1"
    using b c by blast
qed

lemma alive_update_dead:
  "i < length ts \<Longrightarrow> is_alive (ts ! i) \<Longrightarrow> \<not> is_alive t \<Longrightarrow>
     Suc (length (filter is_alive (ts[i := t]))) = length (filter is_alive ts)"
proof (induction ts arbitrary: i)
  case Nil
  then show ?case by simp
next
  case (Cons a ts)
  show ?case
  proof (cases i)
    case 0
    then show ?thesis using Cons.prems by simp
  next
    case (Suc j)
    then have "Suc (length (filter is_alive (ts[j := t]))) = length (filter is_alive ts)"
      using Cons.prems Cons.IH[of j] by simp
    then show ?thesis using Suc by simp
  qed
qed

lemma thread_finishes_alive:
  assumes "tid < length (threads w)" and "is_alive (threads w ! tid)"
  shows "Suc (alive_threads (thread_finishes tid w)) = alive_threads w"
  using assms
  by (simp add: alive_threads_def thread_finishes_def alive_update_dead worker_not_alive)

lemma join_alive:
  assumes "jobs_bounded n w" and "next_question_job (session w) = Some tid"
  shows "Suc (alive_threads (join tid w)) \<le> n"
proof (cases "is_alive (threads w ! tid)")
  case True
  have "tid < length (threads w)" using assms by (simp add: jobs_bounded_def)
  then have "Suc (alive_threads (thread_finishes tid w)) = alive_threads w"
    using True by (rule thread_finishes_alive)
  moreover have "alive_threads w \<le> n" using assms(1) by (simp add: jobs_bounded_def)
  ultimately show ?thesis using True by (simp add: join_def)
next
  case False
  then have "alive_threads w + 1 \<le> n"
    using assms by (simp add: jobs_bounded_def job_finished_unread_def)
  then show ?thesis using False by (simp add: join_def)
qed

lemma launch_bounded:
  assumes "alive_threads w \<le> m"
  shows "jobs_bounded (Suc m) (snd (launch_next_question_job e w))"
proof (cases "unused_verbs (session w) = []")
  case True
  then show ?thesis using assms
    by (simp add: launch_empty jobs_bounded_def job_finished_unread_def alive_threads_def)
next
  case False
  then show ?thesis using assms
    by (simp add: launch_nonempty jobs_bounded_def job_finished_unread_def alive_threads_def)
qed

lemma jobs_bounded_mono: "jobs_bounded n w \<Longrightarrow> n \<le> m \<Longrightarrow> jobs_bounded m w"
  by (simp add: jobs_bounded_def)

lemma jobs_bounded_session:
  assumes "jobs_bounded n w" and "threads w' = threads w"
    and "next_question_job (session w') = next_question_job (session w)"
  shows "jobs_bounded n w'"
  using assms
  by (auto simp: jobs_bounded_def job_finished_unread_def alive_threads_def
      split: option.splits if_splits)

lemma initialize_bounded:
  assumes "jobs_bounded n w"
  shows "jobs_bounded (Suc n) (snd (initialize_quiz r e1 e2 upload key w))"
proof (cases "load_verbs upload = None \<or> (\<exists>vs. load_verbs upload = Some vs \<and> length vs < 5)")
  case True
  then show ?thesis using assms by (simp add: initialize_quiz_refused jobs_bounded_mono)
next
  case False
  then obtain loaded where l: "load_verbs upload = Some loaded" "5 \<le> length loaded"
    by (cases "load_verbs upload") auto
  let ?verbs = "random_shuffle r loaded"
  have a: "alive_threads w \<le> n" using assms by (simp add: jobs_bounded_def)
  show ?thesis
  proof (cases "prepare_question_data e1 (last ?verbs) ?verbs key")
    case (Inl ex)
    have "jobs_bounded n (snd (initialize_quiz r e1 e2 upload key w))"
      using assms by (rule jobs_bounded_session) (simp_all add: initialize_quiz_accepted[OF l] Inl)
    then show ?thesis by (rule jobs_bounded_mono) simp
  next
    case (Inr q)
    let ?w = "w\<lparr>session := (session w)
               \<lparr>all_verbs := ?verbs,
                total_verbs := Some (length loaded),
                incorrect_answers := [], question_number := 1, api_key := key,
                quiz_running := True, show_feedback := False,
                unused_verbs := butlast ?verbs,
                current_question_data := Some q\<rparr>\<rparr>"
    have "alive_threads ?w \<le> n" using a by (simp add: alive_threads_def)
    then have "jobs_bounded (Suc n) (snd (launch_next_question_job e2 ?w))"
      by (rule launch_bounded)
    then show ?thesis using Inr by (simp add: initialize_quiz_accepted[OF l])
  qed
qed

lemma next_question_bounded:
  assumes "jobs_bounded n w" and "next_question_job (session w) = Some tid"
  shows "jobs_bounded n (snd (next_question e w))"
proof -
  let ?w = "(join tid w)\<lparr>session := (session w)
          \<lparr>current_question_data := data (threads (join tid w) ! tid),
           question_number := question_number (session w) + 1,
           show_feedback := False\<rparr>\<rparr>"
  have "Suc (alive_threads (join tid w)) \<le> n" using assms by (rule join_alive)
  then obtain m where m: "n = Suc m" "alive_threads (join tid w) \<le> m"
    by (cases n) auto
  have "alive_threads ?w \<le> m" using m(2) by (simp add: alive_threads_def)
  then have "jobs_bounded (Suc m) (snd (launch_next_question_job e ?w))"
    by (rule launch_bounded)
  then show ?thesis by (simp only: next_question_Some[OF assms(2)] m(1))
qed

lemma thread_finishes_bounded:
  assumes "jobs_bounded n w" and "tid < length (threads w)" and "is_alive (threads w ! tid)"
  shows "jobs_bounded n (thread_finishes tid w)"
proof -
  have s: "Suc (alive_threads (thread_finishes tid w)) = alive_threads w"
    using assms(2,3) by (rule thread_finishes_alive)
  have j: "next_question_job (session (thread_finishes tid w)) = next_question_job (session w)"
    and len: "length (threads (thread_finishes tid w)) = length (threads w)"
    by (simp_all add: thread_finishes_def)
  have u: "job_finished_unread (thread_finishes tid w) \<le> Suc (job_finished_unread w)"
    by (simp add: job_finished_unread_def split: option.splits)
  have "alive_threads (thread_finishes tid w) + job_finished_unread (thread_finishes tid w)
          \<le> alive_threads w + job_finished_unread w"
    using s u by simp
  then show ?thesis
    using assms(1) j len by (simp add: jobs_bounded_def split: option.splits)
qed

lemma step_bounded:
  assumes "jobs_bounded n w" and "step ev w = Some w'"
  shows "jobs_bounded (if is_start ev then Suc n else n) w'"
proof (cases ev)
  case (Start_Quiz upload key r e1 e2)
  then show ?thesis using assms initialize_bounded[OF assms(1), of r e1 e2 upload key]
    by (auto split: if_splits)
next
  case End_Quiz_Now
  then have "w' = finish_quiz w" using assms(2) by (auto split: if_splits)
  then show ?thesis using End_Quiz_Now jobs_bounded_session[OF assms(1), of w']
    by (simp add: finish_quiz_def)
next
  case Start_Over
  then have "w' = w\<lparr>session := initial_session\<rparr>" using assms(2) by (auto split: if_splits)
  then show ?thesis using Start_Over assms(1)
    by (simp add: jobs_bounded_def job_finished_unread_def alive_threads_def initial_session_def)
next
  case (Choose i)
  then obtain c where "w' = snd (handle_answer c w)"
    using assms(2) by (auto split: option.splits if_splits)
  then show ?thesis using Choose jobs_bounded_session[OF assms(1), of w']
    by (simp add: handle_answer_def Let_def split: option.splits)
next
  case (Next_Question e)
  then obtain tid where "next_question_job (session w) = Some tid" "w' = snd (next_question e w)"
    using assms(2) by (auto split: if_splits)
  then show ?thesis using Next_Question next_question_bounded[OF assms(1), of tid e] by simp
next
  case Finish_Quiz
  then have "w' = finish_quiz w" using assms(2) by (auto split: if_splits)
  then show ?thesis using Finish_Quiz jobs_bounded_session[OF assms(1), of w']
    by (simp add: finish_quiz_def)
next
  case (Thread_Finishes tid)
  then have "tid < length (threads w)" "is_alive (threads w ! tid)" "w' = thread_finishes tid w"
    using assms(2) by (auto split: if_splits)
  then show ?thesis using Thread_Finishes thread_finishes_bounded[OF assms(1)] by simp
qed

lemma run_bounded:
  "jobs_bounded n w \<Longrightarrow> run evs w = Some w' \<Longrightarrow> jobs_bounded (n + starts evs) w'"
proof (induction evs arbitrary: w n)
  case Nil
  then show ?case by (simp add: starts_def)
next
  case (Cons ev evs)
  then obtain w1 where s: "step ev w = Some w1" and r: "run evs w1 = Some w'"
    by (auto split: option.splits)
  have "jobs_bounded (if is_start ev then Suc n else n) w1"
    using Cons.prems(1) s by (rule step_bounded)
  then have "jobs_bounded ((if is_start ev then Suc n else n) + starts evs) w'"
    using r by (rule Cons.IH)
  then show ?case by (simp add: starts_def split: if_splits)
qed

lemma initial_bounded: "jobs_bounded 0 initial_world"
  by (simp add: jobs_bounded_def job_finished_unread_def alive_threads_def
      initial_world_def initial_session_def)

lemma six_started_Done:
  "initialize_quiz always_first env0 env0 (Some six_text) ''key'' initial_world = (Done, six_started)"
proof -
  have "fst (initialize_quiz always_first env0 env0 (Some six_text) ''key'' initial_world) = Done"
    by code_simp
  then show ?thesis unfolding six_started_def by (metis prod.collapse)
qed

lemma six_answered_run: "run six_first_answer initial_world = Some six_answered"
proof -
  have q: "map_option q_translations (current_question_data (session six_started))
             = Some [''1'', ''2'', ''3'', ''4'', ''6'']"
    by code_simp
  have s: "question_shown six_started \<and> \<not> show_feedback (session six_started)"
    by code_simp
  from q obtain q0 where q0: "current_question_data (session six_started) = Some q0"
    "q_translations q0 = [''1'', ''2'', ''3'', ''4'', ''6'']"
    by auto
  show ?thesis
    using q0 s
    by (simp add: six_first_answer_def six_started_def[symmetric] six_answered_def)
qed

lemma six_last_run:
  "run six_trace initial_world = Some six_last"
  "next_question_job (session six_last) = None"
  "total_verbs (session six_last) = Some 6"
  "unused_verbs (session six_last) = []"
  "engine_state six_last = Running"
  "alive_threads six_last = 0"
proof -
  have g: "map_option (\<lambda>w'. (next_question_job (session w'), total_verbs (session w'),
                unused_verbs (session w'), engine_state w', alive_threads w'))
             (run six_trace initial_world) = Some (None, Some 6, [], Running, 0)"
    by code_simp
  then show h: "run six_trace initial_world = Some six_last"
    by (auto simp: six_last_def)
  show "next_question_job (session six_last) = None"
    and "total_verbs (session six_last) = Some 6"
    and "unused_verbs (session six_last) = []"
    and "engine_state six_last = Running"
    and "alive_threads six_last = 0"
    using g h by auto
qed

lemma worker_args: "arg_verb_entry (worker_prepare_question t) = arg_verb_entry t"
  by (simp add: worker_prepare_question_def split: sum.splits)

lemma thread_finishes_args:
  "map arg_verb_entry (threads (thread_finishes tid w)) = map arg_verb_entry (threads w)"
proof -
  have "map arg_verb_entry ((threads w)[tid := worker_prepare_question (threads w ! tid)])
          = (map arg_verb_entry (threads w))[tid := arg_verb_entry (threads w ! tid)]"
    by (simp add: map_update worker_args)
  also have "\<dots> = map arg_verb_entry (threads w)"
  proof (cases "tid < length (threads w)")
    case True
    then have "arg_verb_entry (threads w ! tid) = map arg_verb_entry (threads w) ! tid" by simp
    then show ?thesis by (simp only: list_update_id)
  next
    case False
    then show ?thesis by (simp add: list_update_beyond)
  qed
  finally show ?thesis by (simp add: thread_finishes_def)
qed

lemma handed_out_cong:
  "map arg_verb_entry (threads w') = map arg_verb_entry (threads w) \<Longrightarrow>
   handed_out k v1 w' = handed_out k v1 w"
  by (simp add: handed_out_def drop_map[symmetric])

lemma pool_accounted_cong:
  assumes "pool_accounted k v1 w"
    and "map arg_verb_entry (threads w') = map arg_verb_entry (threads w)"
    and "all_verbs (session w') = all_verbs (session w)"
    and "unused_verbs (session w') = unused_verbs (session w)"
  shows "pool_accounted k v1 w'"
proof -
  have "length (map arg_verb_entry (threads w')) = length (map arg_verb_entry (threads w))"
    using assms(2) by simp
  then have len: "length (threads w') = length (threads w)" by simp
  have h: "handed_out k v1 w' = handed_out k v1 w"
    using assms(2) by (rule handed_out_cong)
  show ?thesis
    using assms(1) by (simp add: pool_accounted_def len h assms(3,4))
qed

lemma thread_finishes_accounted:
  assumes "pool_accounted k v1 w"
  shows "pool_accounted k v1 (thread_finishes tid w)"
  using assms
proof (rule pool_accounted_cong)
  show "map arg_verb_entry (threads (thread_finishes tid w)) = map arg_verb_entry (threads w)"
    by (rule thread_finishes_args)
  show "all_verbs (session (thread_finishes tid w)) = all_verbs (session w)"
    by (simp add: thread_finishes_def)
  show "unused_verbs (session (thread_finishes tid w)) = unused_verbs (session w)"
    by (simp add: thread_finishes_def)
qed

lemma join_accounted: "pool_accounted k v1 w \<Longrightarrow> pool_accounted k v1 (join tid w)"
  by (simp add: join_def thread_finishes_accounted)

lemma launch_accounted:
  assumes "pool_accounted k v1 w"
  shows "pool_accounted k v1 (snd (launch_next_question_job e w))"
proof (cases "unused_verbs (session w) = []")
  case True
  then show ?thesis using assms
    by (simp add: launch_empty pool_accounted_def handed_out_def)
next
  case False
  have k: "k \<le> length (threads w)" using assms by (simp add: pool_accounted_def)
  have "all_verbs (session w)
          = (butlast (unused_verbs (session w)) @ [last (unused_verbs (session w))])
            @ rev (handed_out k v1 w)"
    using assms False by (simp add: pool_accounted_def)
  then show ?thesis using False k
    by (simp add: launch_nonempty pool_accounted_def handed_out_def)
qed

lemma launch_all_verbs:
  "all_verbs (session (snd (launch_next_question_job e w))) = all_verbs (session w)"
  by (cases "unused_verbs (session w) = []") (simp_all add: launch_empty launch_nonempty)

lemma next_question_accounted:
  assumes "pool_accounted k v1 w"
  shows "pool_accounted k v1 (snd (next_question e w))"
    and "all_verbs (session (snd (next_question e w))) = all_verbs (session w)"
proof -
  show "pool_accounted k v1 (snd (next_question e w))"
  proof (cases "next_question_job (session w)")
    case None
    then show ?thesis using assms by (simp add: next_question_def)
  next
    case (Some tid)
    let ?w = "(join tid w)\<lparr>session := (session w)
          \<lparr>current_question_data := data (threads (join tid w) ! tid),
           question_number := question_number (session w) + 1,
           show_feedback := False\<rparr>\<rparr>"
    have "pool_accounted k v1 (join tid w)" using assms by (rule join_accounted)
    then have "pool_accounted k v1 ?w"
      by (rule pool_accounted_cong) (simp_all add: join_session)
    then have "pool_accounted k v1 (snd (launch_next_question_job e ?w))"
      by (rule launch_accounted)
    then show ?thesis by (simp only: next_question_Some[OF Some])
  qed
  show "all_verbs (session (snd (next_question e w))) = all_verbs (session w)"
  proof (cases "next_question_job (session w)")
    case None
    then show ?thesis by (simp add: next_question_def)
  next
    case (Some tid)
    show ?thesis
      by (simp add: next_question_Some[OF Some] launch_all_verbs)
  qed
qed

lemma handle_answer_accounted:
  assumes "pool_accounted k v1 w"
  shows "pool_accounted k v1 (snd (handle_answer c w))"
  using assms
  by (rule pool_accounted_cong) (simp_all add: handle_answer_def Let_def split: option.splits)

lemma handle_answer_all_verbs:
  "all_verbs (session (snd (handle_answer c w))) = all_verbs (session w)"
  by (simp add: handle_answer_def Let_def split: option.splits)

lemma step_accounted:
  assumes "pool_accounted k v1 w" and "in_quiz ev" and "step ev w = Some w'"
  shows "pool_accounted k v1 w' \<and> all_verbs (session w') = all_verbs (session w)"
proof (cases ev)
  case (Start_Quiz upload key r e1 e2)
  then show ?thesis using assms(2) by simp
next
  case End_Quiz_Now
  then have "w' = finish_quiz w" using assms(3) by (auto split: if_splits)
  then show ?thesis using pool_accounted_cong[OF assms(1), of w']
    by (simp add: finish_quiz_def)
next
  case Start_Over
  then show ?thesis using assms(2) by simp
next
  case (Choose i)
  then obtain c where "w' = snd (handle_answer c w)"
    using assms(3) by (auto split: option.splits if_splits)
  then show ?thesis
    using handle_answer_accounted[OF assms(1)] handle_answer_all_verbs by simp
next
  case (Next_Question e)
  then have "w' = snd (next_question e w)" using assms(3) by (auto split: if_splits)
  then show ?thesis using next_question_accounted[OF assms(1)] by simp
next
  case Finish_Quiz
  then have "w' = finish_quiz w" using assms(3) by (auto split: if_splits)
  then show ?thesis using pool_accounted_cong[OF assms(1), of w']
    by (simp add: finish_quiz_def)
next
  case (Thread_Finishes tid)
  then have "w' = thread_finishes tid w" using assms(3) by (auto split: if_splits)
  then show ?thesis using thread_finishes_accounted[OF assms(1)]
    by (simp add: thread_finishes_def)
qed

lemma run_accounted:
  "pool_accounted k v1 w \<Longrightarrow> list_all in_quiz evs \<Longrightarrow> run evs w = Some w' \<Longrightarrow>
     pool_accounted k v1 w' \<and> all_verbs (session w') = all_verbs (session w)"
proof (induction evs arbitrary: w)
  case Nil
  then show ?case by simp
next
  case (Cons ev evs)
  then obtain w2 where s: "step ev w = Some w2" and r: "run evs w2 = Some w'"
    by (auto split: option.splits)
  have i: "in_quiz ev" and l: "list_all in_quiz evs" using Cons.prems(2) by simp_all
  have a: "pool_accounted k v1 w2 \<and> all_verbs (session w2) = all_verbs (session w)"
    using Cons.prems(1) i s by (rule step_accounted)
  then have "pool_accounted k v1 w' \<and> all_verbs (session w') = all_verbs (session w2)"
    using l r Cons.IH by blast
  then show ?case using a by simp
qed

lemma initialize_Done_accepted:
  assumes "initialize_quiz r e1 e2 upload key w0 = (Done, w1)"
  obtains loaded where "load_verbs upload = Some loaded" and "5 \<le> length loaded"
proof (cases "load_verbs upload = None \<or> (\<exists>vs. load_verbs upload = Some vs \<and> length vs < 5)")
  case True
  then have "initialize_quiz r e1 e2 upload key w0 = (Refused, w0)"
    by (rule initialize_quiz_refused)
  then show ?thesis using assms by simp
next
  case False
  then obtain loaded where "load_verbs upload = Some loaded" "5 \<le> length loaded"
    by (cases "load_verbs upload") auto
  then show ?thesis by (rule that)
qed

lemma initialize_accounted:
  assumes "initialize_quiz r e1 e2 upload key w0 = (Done, w1)"
  shows "\<exists>loaded. load_verbs upload = Some loaded
           \<and> mset (all_verbs (session w1)) = mset loaded
           \<and> pool_accounted (length (threads w0)) (last (all_verbs (session w1))) w1"
proof -
  obtain loaded where l: "load_verbs upload = Some loaded" "5 \<le> length loaded"
    using assms by (rule initialize_Done_accepted)
  have m: "mset (all_verbs (session w1)) = mset loaded"
    using l assms by (rule initialize_quiz_pops(1))
  obtain t q v1 where t: "threads w1 = threads w0 @ [t]"
      "all_verbs (session w1) = unused_verbs (session w1) @ [arg_verb_entry t, v1]"
    using initialize_quiz_pops(2)[OF l assms] by blast
  have "last (all_verbs (session w1)) = v1" by (simp add: t(2))
  then have "pool_accounted (length (threads w0)) (last (all_verbs (session w1))) w1"
    using t by (simp add: pool_accounted_def handed_out_def)
  then show ?thesis using l(1) m by blast
qed

lemma pops_accounted:
  assumes "xs = rest @ rev hs"
  shows "pops (length hs) xs = Inr (hs, rest)"
proof -
  have "length hs \<le> length xs" using assms by simp
  then have "pops (length hs) xs = Inr (take (length hs) (rev xs), rev (drop (length hs) (rev xs)))"
    by (rule pops_rev)
  then show ?thesis by (simp add: assms)
qed

lemma quiz_pops:
  assumes "initialize_quiz r e1 e2 upload key w0 = (Done, w1)"
    and "run evs w1 = Some w" and "list_all in_quiz evs"
  shows "\<exists>loaded. load_verbs upload = Some loaded
      \<and> mset (all_verbs (session w)) = mset loaded
      \<and> pops (length (handed_out (length (threads w0)) (last (all_verbs (session w))) w))
           (all_verbs (session w))
          = Inr (handed_out (length (threads w0)) (last (all_verbs (session w))) w,
                 unused_verbs (session w))
      \<and> mset (handed_out (length (threads w0)) (last (all_verbs (session w))) w) \<subseteq># mset loaded
      \<and> (distinct loaded \<longrightarrow>
            distinct (handed_out (length (threads w0)) (last (all_verbs (session w))) w))"
proof -
  let ?k = "length (threads w0)"
  obtain loaded where l: "load_verbs upload = Some loaded"
      "mset (all_verbs (session w1)) = mset loaded"
      "pool_accounted ?k (last (all_verbs (session w1))) w1"
    using initialize_accounted[OF assms(1)] by blast
  have a: "pool_accounted ?k (last (all_verbs (session w1))) w"
      "all_verbs (session w) = all_verbs (session w1)"
    using run_accounted[OF l(3) assms(3) assms(2)] by simp_all
  let ?hs = "handed_out ?k (last (all_verbs (session w))) w"
  have eq: "all_verbs (session w) = unused_verbs (session w) @ rev ?hs"
    using a by (simp add: pool_accounted_def)
  then have p: "pops (length ?hs) (all_verbs (session w)) = Inr (?hs, unused_verbs (session w))"
    by (rule pops_accounted)
  have m: "mset (all_verbs (session w)) = mset loaded" using a(2) l(2) by simp
  have "mset (all_verbs (session w)) = mset (unused_verbs (session w)) + mset ?hs"
    using eq by (metis mset_append mset_rev)
  then have s: "mset ?hs \<subseteq># mset loaded" using m by (metis mset_subset_eq_add_right)
  have d: "distinct loaded \<longrightarrow> distinct ?hs"
    using s distinct_sub_mset by blast
  show ?thesis using l(1) m p s d by blast
qed

lemma six_rest_run: "run six_rest six_started = Some six_last" "list_all in_quiz six_rest"
proof -
  have "run six_trace initial_world = run six_rest six_started"
    by (simp add: six_trace_def six_rest_def six_started_def)
  then show "run six_rest six_started = Some six_last" using six_last_run(1) by simp
  show "list_all in_quiz six_rest" by (simp add: six_rest_def)
qed

text \<open>
  Claim C8, as the code has it. Pops take the pairs from the end of the list, one
  position after the other: \<open>n\<close> pops of a list of at least \<open>n\<close> elements return its
  last \<open>n\<close> elements from the back, each position once, and leave the rest; one pop more
  than there are elements raises. Within one quiz, that is after a successful
  \<^verbatim>\<open>initialize_quiz\<close> and any events up to the next start or reset, the pairs handed out
  so far (the pair of the first question, then the pair of each thread started since) are
  exactly what that many pops of the shuffled list return, and the unused pairs are what
  these pops leave. So every entry of the upload is handed out at most once; the pairs
  handed out are pairwise different when the upload holds no pair twice.
  \<^verbatim>\<open>launch_next_question_job\<close> starts a thread only for the pair it has just popped, which
  is no longer among the unused pairs, and starts none when no pair is left.
\<close>

theorem pairs_popped_once:
  "(n \<le> length xs \<longrightarrow>
      pops n xs = Inr (rev (drop (length xs - n) xs), take (length xs - n) xs))
   \<and> (length xs < n \<longrightarrow> pops n xs = Inl IndexError)
   \<and> (pops n xs = Inr (popped, rest) \<longrightarrow>
        rest @ rev popped = xs \<and> length popped = n \<and> mset popped \<subseteq># mset xs
        \<and> popped = map (\<lambda>i. xs ! (length xs - 1 - i)) [0..<n]
        \<and> (distinct xs \<longrightarrow> distinct popped))
   \<and> (initialize_quiz r e1 e2 upload key w0 = (Done, w1) \<and> run evs w1 = Some w
        \<and> list_all in_quiz evs \<longrightarrow>
        (\<exists>loaded. load_verbs upload = Some loaded
           \<and> mset (all_verbs (session w)) = mset loaded
           \<and> pops (length (handed_out (length (threads w0)) (last (all_verbs (session w))) w))
                (all_verbs (session w))
               = Inr (handed_out (length (threads w0)) (last (all_verbs (session w))) w,
                      unused_verbs (session w))
           \<and> mset (handed_out (length (threads w0)) (last (all_verbs (session w))) w)
                \<subseteq># mset loaded
           \<and> (distinct loaded \<longrightarrow>
                 distinct (handed_out (length (threads w0)) (last (all_verbs (session w))) w))))
   \<and> (run evs' initial_world = Some w' \<longrightarrow> unused_is_prefix w')
   \<and> (unused_verbs (session wl) \<noteq> [] \<longrightarrow>
        (\<exists>w'' t. launch_next_question_job e wl = (Done, w'') \<and> threads w'' = threads wl @ [t]
           \<and> is_alive t \<and> arg_verb_entry t = last (unused_verbs (session wl))
           \<and> unused_verbs (session wl) = unused_verbs (session w'') @ [arg_verb_entry t]
           \<and> next_question_job (session w'') = Some (length (threads wl))))
   \<and> (unused_verbs (session wl) = [] \<longrightarrow>
        (\<exists>w''. launch_next_question_job e wl = (Done, w'') \<and> threads w'' = threads wl
           \<and> next_question_job (session w'') = None))
   \<and> (load_verbs upload = Some loaded' \<and> 5 \<le> length loaded'
        \<and> initialize_quiz r e1 e2 upload key w0 = (Done, w1) \<longrightarrow>
        mset (all_verbs (session w1)) = mset loaded'
        \<and> (\<exists>t q v1. threads w1 = threads w0 @ [t]
              \<and> current_question_data (session w1) = Some q
              \<and> all_verbs (session w1) = unused_verbs (session w1) @ [arg_verb_entry t, v1]
              \<and> current_verb q = Verb v1 \<and> correct_translation q = Translation v1))"
proof -
  have a: "n \<le> length xs \<longrightarrow>
      pops n xs = Inr (rev (drop (length xs - n) xs), take (length xs - n) xs)"
    using pops_tail[of n xs] by blast
  have b: "length xs < n \<longrightarrow> pops n xs = Inl IndexError"
    using pops_too_many[of xs n] by blast
  have p: "pops n xs = Inr (popped, rest) \<longrightarrow>
        rest @ rev popped = xs \<and> length popped = n \<and> mset popped \<subseteq># mset xs
        \<and> popped = map (\<lambda>i. xs ! (length xs - 1 - i)) [0..<n]
        \<and> (distinct xs \<longrightarrow> distinct popped)"
    using pops_result[of n xs popped rest] by blast
  have q: "initialize_quiz r e1 e2 upload key w0 = (Done, w1) \<and> run evs w1 = Some w
        \<and> list_all in_quiz evs \<longrightarrow>
        (\<exists>loaded. load_verbs upload = Some loaded
           \<and> mset (all_verbs (session w)) = mset loaded
           \<and> pops (length (handed_out (length (threads w0)) (last (all_verbs (session w))) w))
                (all_verbs (session w))
               = Inr (handed_out (length (threads w0)) (last (all_verbs (session w))) w,
                      unused_verbs (session w))
           \<and> mset (handed_out (length (threads w0)) (last (all_verbs (session w))) w)
                \<subseteq># mset loaded
           \<and> (distinct loaded \<longrightarrow>
                 distinct (handed_out (length (threads w0)) (last (all_verbs (session w))) w)))"
    using quiz_pops[of r e1 e2 upload key w0 w1 evs w] by blast
  have r: "run evs' initial_world = Some w' \<longrightarrow> unused_is_prefix w'"
    using run_prefix[OF initial_prefix] by blast
  have l1: "unused_verbs (session wl) \<noteq> [] \<longrightarrow>
        (\<exists>w'' t. launch_next_question_job e wl = (Done, w'') \<and> threads w'' = threads wl @ [t]
           \<and> is_alive t \<and> arg_verb_entry t = last (unused_verbs (session wl))
           \<and> unused_verbs (session wl) = unused_verbs (session w'') @ [arg_verb_entry t]
           \<and> next_question_job (session w'') = Some (length (threads wl)))"
    using launch_pops_first[of wl e] by blast
  have l2: "unused_verbs (session wl) = [] \<longrightarrow>
        (\<exists>w''. launch_next_question_job e wl = (Done, w'') \<and> threads w'' = threads wl
           \<and> next_question_job (session w'') = None)"
    using launch_nothing_left[of wl e] by blast
  have i: "load_verbs upload = Some loaded' \<and> 5 \<le> length loaded'
        \<and> initialize_quiz r e1 e2 upload key w0 = (Done, w1) \<longrightarrow>
        mset (all_verbs (session w1)) = mset loaded'
        \<and> (\<exists>t q v1. threads w1 = threads w0 @ [t]
              \<and> current_question_data (session w1) = Some q
              \<and> all_verbs (session w1) = unused_verbs (session w1) @ [arg_verb_entry t, v1]
              \<and> current_verb q = Verb v1 \<and> correct_translation q = Translation v1)"
    using initialize_quiz_pops[of upload loaded' r e1 e2 key w0 w1] by blast
  show ?thesis
    by (intro conjI) (rule a b p q r l1 l2 i)+
qed

text \<open>
  Without the condition on the upload the pairs returned can repeat: \<^verbatim>\<open>load_verbs\<close> keeps
  a line that occurs twice as two entries, and the quiz hands both out, here as the first
  question and as the job started for the second.
\<close>

theorem pairs_popped_once_counterexample:
  "load_verbs (Some repeat_text) = Some repeat_pool
   \<and> pops 2 repeat_pool
       = Inr ([\<lparr>Verb = ''e'', Translation = ''5''\<rparr>, \<lparr>Verb = ''e'', Translation = ''5''\<rparr>],
              [\<lparr>Verb = ''a'', Translation = ''1''\<rparr>, \<lparr>Verb = ''b'', Translation = ''2''\<rparr>,
               \<lparr>Verb = ''c'', Translation = ''3''\<rparr>, \<lparr>Verb = ''d'', Translation = ''4''\<rparr>])
   \<and> \<not> distinct [\<lparr>Verb = ''e'', Translation = ''5''\<rparr>, \<lparr>Verb = ''e'', Translation = ''5''\<rparr>]
   \<and> fst (initialize_quiz always_first env0 env0 (Some repeat_text) ''key'' initial_world) = Done
   \<and> map_option current_verb (current_question_data (session repeat_started)) = Some ''e''
   \<and> map arg_verb_entry (threads repeat_started) = [\<lparr>Verb = ''e'', Translation = ''5''\<rparr>]
   \<and> handed_out 0 (last (all_verbs (session repeat_started))) repeat_started
       = [\<lparr>Verb = ''e'', Translation = ''5''\<rparr>, \<lparr>Verb = ''e'', Translation = ''5''\<rparr>]"
  by code_simp

theorem pairs_popped_once_witness:
  "pops 2 [1, 2, 3 :: nat] = Inr ([3, 2], [1])
   \<and> pops 4 [1, 2, 3 :: nat] = Inl IndexError
   \<and> distinct [1, 2, 3 :: nat] \<and> distinct [3, 2 :: nat]
   \<and> initialize_quiz always_first env0 env0 (Some six_text) ''key'' initial_world
        = (Done, six_started)
   \<and> run six_rest six_started = Some six_last \<and> list_all in_quiz six_rest
   \<and> load_verbs (Some six_text) = Some six_pool \<and> distinct six_pool
   \<and> handed_out 0 (last (all_verbs (session six_last))) six_last = rev six_pool
   \<and> pops 6 (all_verbs (session six_last)) = Inr (rev six_pool, unused_verbs (session six_last))
   \<and> distinct (handed_out 0 (last (all_verbs (session six_last))) six_last)
   \<and> run six_trace initial_world = Some six_last
   \<and> unused_is_prefix six_last
   \<and> unused_verbs (session six_answered) \<noteq> []
   \<and> (\<exists>w' t. launch_next_question_job env0 six_answered = (Done, w')
         \<and> threads w' = threads six_answered @ [t]
         \<and> arg_verb_entry t = \<lparr>Verb = ''d'', Translation = ''4''\<rparr>
         \<and> unused_verbs (session six_answered) = unused_verbs (session w') @ [arg_verb_entry t])
   \<and> unused_verbs (session six_last) = []
   \<and> (\<exists>w'. launch_next_question_job env0 six_last = (Done, w')
         \<and> threads w' = threads six_last \<and> next_question_job (session w') = None)
   \<and> 5 \<le> length six_pool
   \<and> mset (all_verbs (session six_started)) = mset six_pool
   \<and> (\<exists>t q v1. threads six_started = threads initial_world @ [t]
         \<and> current_question_data (session six_started) = Some q
         \<and> all_verbs (session six_started)
              = unused_verbs (session six_started) @ [arg_verb_entry t, v1]
         \<and> current_verb q = Verb v1 \<and> correct_translation q = Translation v1)"
proof -
  have a: "(2::nat) \<le> length [1, 2, 3 :: nat]" by simp
  have b: "length [1, 2, 3 :: nat] < 4" by simp
  have c: "pops 2 [1, 2, 3 :: nat] = Inr ([3, 2], [1])" by code_simp
  have d: "distinct [1, 2, 3 :: nat]" by simp
  have u: "unused_verbs (session six_answered) \<noteq> []" by code_simp
  have v: "last (unused_verbs (session six_answered)) = \<lparr>Verb = ''d'', Translation = ''4''\<rparr>"
    by code_simp
  have l: "load_verbs (Some six_text) = Some six_pool" by code_simp
  have n: "5 \<le> length six_pool" by code_simp
  have ds: "distinct six_pool" by code_simp
  have h: "handed_out 0 (last (all_verbs (session six_last))) six_last = rev six_pool"
    by code_simp
  have k: "length (threads initial_world) = 0" by (simp add: initial_world_def)
  have len: "length (rev six_pool) = 6" by (simp add: six_pool_def)
  note t1 = pairs_popped_once[where n = 2 and xs = "[1, 2, 3 :: nat]" and popped = "[3, 2]"
      and rest = "[1]" and evs = six_rest and w = six_last and wl = six_answered and e = env0
      and upload = "Some six_text" and loaded' = six_pool and r = always_first and ?e1.0 = env0
      and ?e2.0 = env0 and key = "''key''" and ?w0.0 = initial_world and ?w1.0 = six_started
      and evs' = six_trace and w' = six_last]
  note t2 = pairs_popped_once[where n = 4 and xs = "[1, 2, 3 :: nat]" and wl = six_last
      and e = env0]
  have q: "\<exists>loaded. load_verbs (Some six_text) = Some loaded
           \<and> mset (all_verbs (session six_last)) = mset loaded
           \<and> pops (length (handed_out (length (threads initial_world))
                              (last (all_verbs (session six_last))) six_last))
                (all_verbs (session six_last))
               = Inr (handed_out (length (threads initial_world))
                        (last (all_verbs (session six_last))) six_last,
                      unused_verbs (session six_last))
           \<and> mset (handed_out (length (threads initial_world))
                     (last (all_verbs (session six_last))) six_last) \<subseteq># mset loaded
           \<and> (distinct loaded \<longrightarrow>
                 distinct (handed_out (length (threads initial_world))
                             (last (all_verbs (session six_last))) six_last))"
    using t1 six_started_Done six_rest_run by blast
  then have q1: "pops 6 (all_verbs (session six_last))
        = Inr (rev six_pool, unused_verbs (session six_last))"
    and q2: "distinct (handed_out 0 (last (all_verbs (session six_last))) six_last)"
    using l ds h k len by auto
  have rest: "pops 2 [1, 2, 3 :: nat] = Inr ([3, 2], [1])
   \<and> pops 4 [1, 2, 3 :: nat] = Inl IndexError
   \<and> distinct [1, 2, 3 :: nat] \<and> distinct [3, 2 :: nat]
   \<and> run six_trace initial_world = Some six_last
   \<and> unused_is_prefix six_last
   \<and> unused_verbs (session six_answered) \<noteq> []
   \<and> (\<exists>w' t. launch_next_question_job env0 six_answered = (Done, w')
         \<and> threads w' = threads six_answered @ [t]
         \<and> arg_verb_entry t = \<lparr>Verb = ''d'', Translation = ''4''\<rparr>
         \<and> unused_verbs (session six_answered) = unused_verbs (session w') @ [arg_verb_entry t])
   \<and> unused_verbs (session six_last) = []
   \<and> (\<exists>w'. launch_next_question_job env0 six_last = (Done, w')
         \<and> threads w' = threads six_last \<and> next_question_job (session w') = None)
   \<and> 5 \<le> length six_pool
   \<and> mset (all_verbs (session six_started)) = mset six_pool
   \<and> (\<exists>t q v1. threads six_started = threads initial_world @ [t]
         \<and> current_question_data (session six_started) = Some q
         \<and> all_verbs (session six_started)
              = unused_verbs (session six_started) @ [arg_verb_entry t, v1]
         \<and> current_verb q = Verb v1 \<and> correct_translation q = Translation v1)"
    using t1 t2 a b c d u v l n six_last_run(1,4) six_started_Done
    by auto
  show ?thesis
    using rest q1 q2 h l ds six_started_Done six_rest_run by simp
qed

text \<open>
  Claim C7, as the code has it. In every state the program can reach, the threads that
  are alive are at most as many as \<^verbatim>\<open>Start Quiz\<close> was pressed, hence at most one in a
  session that was started once; the stored job refers to a started thread, and
  \<^verbatim>\<open>next_question\<close> has joined that thread, which is no longer alive, before it starts
  the next one.
\<close>

theorem background_jobs_bounded_by_starts:
  assumes "run evs initial_world = Some w"
  shows "alive_threads w \<le> starts evs
    \<and> (starts evs \<le> 1 \<longrightarrow> alive_threads w \<le> 1)
    \<and> (\<forall>tid. next_question_job (session w) = Some tid \<longrightarrow>
          tid < length (threads w)
          \<and> (\<forall>e. \<not> is_alive (threads (snd (next_question e w)) ! tid)))"
proof -
  have b: "jobs_bounded (starts evs) w"
    using run_bounded[OF initial_bounded assms] by simp
  then have a: "alive_threads w \<le> starts evs" by (simp add: jobs_bounded_def)
  have "tid < length (threads w) \<and> (\<forall>e. \<not> is_alive (threads (snd (next_question e w)) ! tid))"
    if j: "next_question_job (session w) = Some tid" for tid
  proof -
    have t: "tid < length (threads w)" using b j by (simp add: jobs_bounded_def)
    have "\<not> is_alive (threads (snd (next_question e w)) ! tid)" for e
      using next_question_result[OF j t, of e] by auto
    then show ?thesis using t by blast
  qed
  then show ?thesis using a by auto
qed

text \<open>
  At most one job alive in every reachable state fails: \<^verbatim>\<open>initialize_quiz\<close> starts a
  thread without joining the thread of the job stored before, so pressing \<^verbatim>\<open>Start Quiz\<close>
  twice, with no answer, no advance and no end of the quiz in between, leaves two threads
  alive.
\<close>

theorem background_jobs_counterexample:
  "map_option alive_threads (run restart_trace initial_world) = Some 2
   \<and> starts restart_trace = 2"
  by code_simp

theorem background_jobs_bounded_by_starts_witness:
  "run six_first_answer initial_world = Some six_answered
   \<and> starts six_first_answer = 1
   \<and> alive_threads six_answered \<le> 1
   \<and> next_question_job (session six_answered) = Some 0
   \<and> 0 < length (threads six_answered)
   \<and> \<not> is_alive (threads (snd (next_question env0 six_answered)) ! 0)"
proof -
  have s: "starts six_first_answer = 1" by code_simp
  have j: "next_question_job (session six_answered) = Some 0" by code_simp
  show ?thesis
    using background_jobs_bounded_by_starts[OF six_answered_run] six_answered_run s j by auto
qed

end
